theory Spec2Isabelle
  imports Main
begin

section \<open>Token model (tokenizer/tokenizer.go)\<close>

text \<open>The closed enumeration \<^verbatim>\<open>TokenType\<close>, in the order of the source's \<^verbatim>\<open>iota\<close> block.\<close>

datatype TokenType =
    LPAREN | RPAREN | LBRACE | RBRACE | LBRACKET | RBRACKET | COMMA | SEMICOLON | DOT
  | LET | IF | ELSE | TRUE | FALSE | NULL | DEF | RETURN
  | WHILE | DO | FOR
  | CLASS | THIS | EXTENDS | SUPER | NEW
  | NUMBER | STRING | IDENTIFIER
  | SIMPLE_ASSIGN | COMPLEX_ASSIGN | RELATIONAL_OPERATOR | EQUALITY_OPERATOR
  | ADDITIVE_OPERATOR | MULTIPLICATIVE_OPERATOR | LOGICAL_AND | LOGICAL_OR | LOGICAL_NOT
  | IGNORE
  | EOF | ERROR

text \<open>The array \<^verbatim>\<open>TokenNames\<close>, indexed by token type.\<close>

fun TokenNames :: "TokenType \<Rightarrow> string" where
  "TokenNames LPAREN = ''LPAREN''"
| "TokenNames RPAREN = ''RPAREN''"
| "TokenNames LBRACE = ''LBRACE''"
| "TokenNames RBRACE = ''RBRACE''"
| "TokenNames LBRACKET = ''LBRACKET''"
| "TokenNames RBRACKET = ''RBRACKET''"
| "TokenNames COMMA = ''COMMA''"
| "TokenNames SEMICOLON = ''SEMICOLON''"
| "TokenNames DOT = ''DOT''"
| "TokenNames LET = ''LET''"
| "TokenNames IF = ''IF''"
| "TokenNames ELSE = ''ELSE''"
| "TokenNames TRUE = ''TRUE''"
| "TokenNames FALSE = ''FALSE''"
| "TokenNames NULL = ''NULL''"
| "TokenNames DEF = ''DEF''"
| "TokenNames RETURN = ''RETURN''"
| "TokenNames WHILE = ''WHILE''"
| "TokenNames DO = ''DO''"
| "TokenNames FOR = ''FOR''"
| "TokenNames CLASS = ''CLASS''"
| "TokenNames THIS = ''THIS''"
| "TokenNames EXTENDS = ''EXTENDS''"
| "TokenNames SUPER = ''SUPER''"
| "TokenNames NEW = ''NEW''"
| "TokenNames NUMBER = ''NUMBER''"
| "TokenNames STRING = ''STRING''"
| "TokenNames IDENTIFIER = ''IDENTIFIER''"
| "TokenNames SIMPLE_ASSIGN = ''SIMPLE_ASSIGN''"
| "TokenNames COMPLEX_ASSIGN = ''COMPLEX_ASSIGN''"
| "TokenNames RELATIONAL_OPERATOR = ''RELATIONAL_OPERATOR''"
| "TokenNames EQUALITY_OPERATOR = ''EQUALITY_OPERATOR''"
| "TokenNames ADDITIVE_OPERATOR = ''ADDITIVE_OPERATOR''"
| "TokenNames MULTIPLICATIVE_OPERATOR = ''MULTIPLICATIVE_OPERATOR''"
| "TokenNames LOGICAL_AND = ''LOGICAL_AND''"
| "TokenNames LOGICAL_OR = ''LOGICAL_OR''"
| "TokenNames LOGICAL_NOT = ''LOGICAL_NOT''"
| "TokenNames IGNORE = ''IGNORE''"
| "TokenNames EOF = ''EOF''"
| "TokenNames ERROR = ''ERROR''"

record Token =
  Type :: TokenType
  Value :: string

section \<open>Lexical rules\<close>

text \<open>
  Each entry of the source's \<^verbatim>\<open>Spec\<close> table pairs a regular expression, anchored at the
  start of the remaining input, with a token type. A regular expression is represented by
  the function that \<^verbatim>\<open>FindString\<close> computes for it: the matched prefix of the input, the
  empty string when there is no match. Strings are byte lists. Go's classes \<^verbatim>\<open>\s\<close>,
  \<^verbatim>\<open>\d\<close>, \<^verbatim>\<open>\w\<close> and the boundary \<^verbatim>\<open>\b\<close> are ASCII-only.
\<close>

definition is_space :: "char \<Rightarrow> bool" where
  \<comment> \<open>\<^verbatim>\<open>\s\<close>: tab, line feed, form feed, carriage return, space\<close>
  "is_space c = (c \<in> set [CHR 0x09, CHR 0x0A, CHR 0x0C, CHR 0x0D, CHR '' ''])"

definition is_digit :: "char \<Rightarrow> bool" where
  \<comment> \<open>\<^verbatim>\<open>\d\<close>\<close>
  "is_digit c = (c \<in> set ''0123456789'')"

definition is_word :: "char \<Rightarrow> bool" where
  \<comment> \<open>\<^verbatim>\<open>\w\<close>\<close>
  "is_word c = (c \<in> set ''0123456789ABCDEFGHIJKLMNOPQRSTUVWXYZ_abcdefghijklmnopqrstuvwxyz'')"

definition starts_with :: "string \<Rightarrow> string \<Rightarrow> bool" where
  "starts_with p inp = (take (length p) inp = p)"

definition rx_plus :: "(char \<Rightarrow> bool) \<Rightarrow> string \<Rightarrow> string" where
  \<comment> \<open>\<^verbatim>\<open>^C+\<close> for a character class \<open>C\<close>: the longest run of class characters\<close>
  "rx_plus C inp = takeWhile C inp"

definition rx_line_comment :: "string \<Rightarrow> string" where
  \<comment> \<open>\<^verbatim>\<open>^//.*\<close>: the dot does not match a line feed\<close>
  "rx_line_comment inp =
     (if starts_with ''//'' inp then ''//'' @ takeWhile (\<lambda>c. c \<noteq> CHR 0x0A) (drop 2 inp) else [])"

fun upto_close :: "string \<Rightarrow> string option" where
  \<comment> \<open>\<^verbatim>\<open>[\s\S]*?\*\/\<close>: the shortest prefix that ends in \<^verbatim>\<open>*/\<close>, if there is one\<close>
  "upto_close (a # b # rest) =
     (if a = CHR ''*'' \<and> b = CHR ''/'' then Some [a, b]
      else map_option (\<lambda>m. a # m) (upto_close (b # rest)))"
| "upto_close _ = None"

definition rx_block_comment :: "string \<Rightarrow> string" where
  \<comment> \<open>\<^verbatim>\<open>^\/\*[\s\S]*?\*\/\<close>\<close>
  "rx_block_comment inp =
     (if starts_with ''/*'' inp
      then (case upto_close (drop 2 inp) of Some m \<Rightarrow> ''/*'' @ m | None \<Rightarrow> [])
      else [])"

definition rx_lit :: "string \<Rightarrow> string \<Rightarrow> string" where
  \<comment> \<open>\<^verbatim>\<open>^lit\<close> for a literal string\<close>
  "rx_lit lit inp = (if starts_with lit inp then lit else [])"

definition rx_class :: "string \<Rightarrow> string \<Rightarrow> string" where
  \<comment> \<open>\<^verbatim>\<open>^[cs]\<close>: one character of the class\<close>
  "rx_class cs inp = (case inp of c # _ \<Rightarrow> if c \<in> set cs then [c] else [] | [] \<Rightarrow> [])"

definition rx_class_eq :: "string \<Rightarrow> string \<Rightarrow> string" where
  \<comment> \<open>\<^verbatim>\<open>^[cs]=\<close>: one character of the class, then an equals sign\<close>
  "rx_class_eq cs inp =
     (case inp of c # d # _ \<Rightarrow> if c \<in> set cs \<and> d = CHR ''='' then [c, d] else [] | _ \<Rightarrow> [])"

definition rx_relational :: "string \<Rightarrow> string" where
  \<comment> \<open>\<^verbatim>\<open>^[<>]=?\<close>: the optional equals sign is taken when present\<close>
  "rx_relational inp =
     (case inp of
        [] \<Rightarrow> []
      | c # rest \<Rightarrow>
          if c \<in> set ''<>'' then (if starts_with ''='' rest then [c, CHR ''=''] else [c]) else [])"

definition rx_keyword :: "string \<Rightarrow> string \<Rightarrow> string" where
  \<comment> \<open>\<^verbatim>\<open>^\bkw\b\<close>: the keyword, not followed by a word character. The leading boundary holds
      at the start of the text because every keyword begins with a word character.\<close>
  "rx_keyword kw inp =
     (if starts_with kw inp \<and>
         (case drop (length kw) inp of [] \<Rightarrow> True | c # _ \<Rightarrow> \<not> is_word c)
      then kw else [])"

definition rx_quoted :: "char \<Rightarrow> string \<Rightarrow> string" where
  \<comment> \<open>\<^verbatim>\<open>^q[^q]*q\<close> for a quote character \<open>q\<close>: the match keeps both delimiters\<close>
  "rx_quoted q inp =
     (case inp of
        [] \<Rightarrow> []
      | c # rest \<Rightarrow>
          if c = q
          then (let body = takeWhile (\<lambda>x. x \<noteq> q) rest
                in if starts_with [q] (drop (length body) rest) then q # body @ [q] else [])
          else [])"

datatype Tuple = Tuple (RegEx: "string \<Rightarrow> string") (RuleType: TokenType)

definition Spec :: "Tuple list" where
  "Spec = [
     Tuple (rx_plus is_space) IGNORE,
     Tuple rx_line_comment IGNORE,
     Tuple rx_block_comment IGNORE,
     Tuple (rx_lit ''{'') LBRACE,
     Tuple (rx_lit ''}'') RBRACE,
     Tuple (rx_lit ''('') LPAREN,
     Tuple (rx_lit '')'') RPAREN,
     Tuple (rx_lit ''['') LBRACKET,
     Tuple (rx_lit '']'') RBRACKET,
     Tuple (rx_lit '','') COMMA,
     Tuple (rx_lit '';'') SEMICOLON,
     Tuple (rx_lit ''.'') DOT,
     Tuple rx_relational RELATIONAL_OPERATOR,
     Tuple (rx_class_eq ''!='') EQUALITY_OPERATOR,
     Tuple (rx_lit ''&&'') LOGICAL_AND,
     Tuple (rx_lit ''||'') LOGICAL_OR,
     Tuple (rx_lit ''!'') LOGICAL_NOT,
     Tuple (rx_lit ''='') SIMPLE_ASSIGN,
     Tuple (rx_class_eq ''+-*/'') COMPLEX_ASSIGN,
     Tuple (rx_class ''+-'') ADDITIVE_OPERATOR,
     Tuple (rx_class ''*/'') MULTIPLICATIVE_OPERATOR,
     Tuple (rx_keyword ''let'') LET,
     Tuple (rx_keyword ''if'') IF,
     Tuple (rx_keyword ''else'') ELSE,
     Tuple (rx_keyword ''true'') TRUE,
     Tuple (rx_keyword ''false'') FALSE,
     Tuple (rx_keyword ''null'') NULL,
     Tuple (rx_keyword ''def'') DEF,
     Tuple (rx_keyword ''return'') RETURN,
     Tuple (rx_keyword ''class'') CLASS,
     Tuple (rx_keyword ''this'') THIS,
     Tuple (rx_keyword ''extends'') EXTENDS,
     Tuple (rx_keyword ''super'') SUPER,
     Tuple (rx_keyword ''new'') NEW,
     Tuple (rx_keyword ''while'') WHILE,
     Tuple (rx_keyword ''do'') DO,
     Tuple (rx_keyword ''for'') FOR,
     Tuple (rx_plus is_digit) NUMBER,
     Tuple (rx_quoted (CHR 0x22)) STRING,
     Tuple (rx_quoted (CHR 0x27)) STRING,
     Tuple (rx_plus is_word) IDENTIFIER]"

section \<open>Tokenizer\<close>

record Tokenizer =
  input :: string
  cursor :: nat

definition Tokenizer_New :: "string \<Rightarrow> Tokenizer" where
  "Tokenizer_New inp = \<lparr>input = inp, cursor = 0\<rparr>"

definition hasMoreTokens :: "Tokenizer \<Rightarrow> bool" where
  "hasMoreTokens t = (cursor t < length (input t))"

definition match :: "(string \<Rightarrow> string) \<Rightarrow> string \<Rightarrow> Tokenizer \<Rightarrow> string \<times> Tokenizer" where
  \<comment> \<open>the method \<^verbatim>\<open>match\<close>: a non-empty match advances the cursor\<close>
  "match regExp inp t =
     (let matched = regExp inp
      in if length matched > 0 then (matched, t\<lparr>cursor := cursor t + length matched\<rparr>)
         else (matched, t))"

text \<open>
  \<^verbatim>\<open>GetNextToken\<close> and its loop over \<^verbatim>\<open>Spec\<close>. The loop calls \<^verbatim>\<open>GetNextToken\<close> again after
  an \<^verbatim>\<open>IGNORE\<close> match; the cursor has advanced by then, which is why the recursion ends.
\<close>

function GetNextToken :: "Tokenizer \<Rightarrow> Token \<times> Tokenizer"
  and rules_loop :: "Tuple list \<Rightarrow> string \<Rightarrow> Tokenizer \<Rightarrow> Token \<times> Tokenizer" where
  "GetNextToken t =
     (if \<not> hasMoreTokens t then (\<lparr>Type = EOF, Value = []\<rparr>, t)
      else rules_loop Spec (drop (cursor t) (input t)) t)"
| "rules_loop [] inp t = (\<lparr>Type = ERROR, Value = []\<rparr>, t)"
| "rules_loop (regExp # rest) inp t =
     (case match (RegEx regExp) inp t of
        (tokenValue, t') \<Rightarrow>
          if length tokenValue = 0 then rules_loop rest inp t'
          else if RuleType regExp = IGNORE then GetNextToken t'
          else (\<lparr>Type = RuleType regExp, Value = tokenValue\<rparr>, t'))"
  by pat_completeness auto
termination
  apply (relation "measures
    [\<lambda>x. case x of Inl t \<Rightarrow> length (input t) - cursor t
                 | Inr (rs, inp, t) \<Rightarrow> length (input t) - cursor t,
     \<lambda>x. case x of Inl t \<Rightarrow> (if hasMoreTokens t then length Spec + 2 else 0)
                 | Inr (rs, inp, t) \<Rightarrow> length rs + 1]")
     apply simp
    apply simp
   apply (auto simp: match_def Let_def split: if_splits)[1]
  subgoal for regExp rest inp t
    by (cases "RegEx regExp inp")
       (auto simp: match_def Let_def hasMoreTokens_def split: if_splits)
  done

declare GetNextToken.simps [simp del]

text \<open>The tokens returned by \<open>n\<close> successive calls of \<^verbatim>\<open>GetNextToken\<close>.\<close>

fun GetNextTokens :: "nat \<Rightarrow> Tokenizer \<Rightarrow> Token list" where
  "GetNextTokens 0 t = []"
| "GetNextTokens (Suc n) t = (case GetNextToken t of (tok, t') \<Rightarrow> tok # GetNextTokens n t')"

section \<open>AST node model (package ast)\<close>

datatype Expression =
    NumericLiteral int
  | StringLiteral string
  | BooleanLiteral bool
  | NullLiteral
  | AssignmentExpression string Expression Expression
  | LogicalExpression string Expression Expression
  | BinaryExpression string Expression Expression
  | UnaryExpression string Expression
  | CallExpression Expression "Expression list"
  | MemberExpression bool Expression Expression
  | SuperExpression
  | Identifier string
  | ThisExpression
  | NewExpression Expression "Expression list"

text \<open>
  Field order of the constructors: \<open>AssignmentExpression Operator Left Right\<close> (likewise
  \<open>LogicalExpression\<close> and \<open>BinaryExpression\<close>), \<open>UnaryExpression Operator Right\<close>,
  \<open>CallExpression Callee Arguments\<close>, \<open>MemberExpression Computed Object Property\<close>,
  \<open>NewExpression Callee Arguments\<close>. The \<^verbatim>\<open>int64\<close> of \<open>NumericLiteral\<close> is an \<open>int\<close>; the only
  producer, \<open>ParseInt\<close> below, checks the 64-bit range itself.
\<close>

datatype Statement = ExpressionStatement Expression

datatype Program = Program "Statement list"

subsection \<open>Rendering\<close>

definition digit_char :: "nat \<Rightarrow> char" where
  "digit_char d = ''0123456789'' ! d"

fun FormatUint :: "nat \<Rightarrow> string" where
  "FormatUint n = (if n < 10 then [digit_char n] else FormatUint (n div 10) @ [digit_char (n mod 10)])"

declare FormatUint.simps [simp del]

definition FormatInt :: "int \<Rightarrow> string" where
  \<comment> \<open>\<^verbatim>\<open>fmt.Sprintf("%v", v)\<close> for an \<^verbatim>\<open>int64\<close>: decimal, with a minus sign when negative\<close>
  "FormatInt v = (if v < 0 then CHR ''-'' # FormatUint (nat (- v)) else FormatUint (nat v))"

fun Join :: "string list \<Rightarrow> string \<Rightarrow> string" where
  \<comment> \<open>\<^verbatim>\<open>strings.Join\<close>\<close>
  "Join [] sep = []"
| "Join [x] sep = x"
| "Join (x # y # ys) sep = x @ sep @ Join (y # ys) sep"

fun ToString :: "Expression \<Rightarrow> string" where
  "ToString (NumericLiteral v) = FormatInt v"
| "ToString (StringLiteral v) = v"
| "ToString (BooleanLiteral v) = (if v then ''true'' else ''false'')"
| "ToString NullLiteral = ''null''"
| "ToString (AssignmentExpression operator left right) =
     ToString left @ '' '' @ operator @ '' '' @ ToString right"
| "ToString (LogicalExpression operator left right) =
     ''('' @ ToString left @ operator @ ToString right @ '')''"
| "ToString (BinaryExpression operator left right) =
     ''('' @ ToString left @ operator @ ToString right @ '')''"
| "ToString (UnaryExpression operator right) = ''('' @ operator @ ToString right @ '')''"
| "ToString (CallExpression callee arguments) =
     ToString callee @ ''('' @ Join (map ToString arguments) '', '' @ '')''"
| "ToString (MemberExpression computed object property) =
     (if \<not> computed then ToString object @ ''.'' @ ToString property
      else ToString object @ ''['' @ ToString property @ '']'')"
| "ToString SuperExpression = ''super''"
| "ToString (Identifier name) = name"
| "ToString ThisExpression = ''this''"
| "ToString (NewExpression callee arguments) =
     ''new '' @ ToString callee @ ''('' @ Join (map ToString arguments) '', '' @ '')''"

fun Statement_ToString :: "Statement \<Rightarrow> string" where
  "Statement_ToString (ExpressionStatement e) = ToString e"

fun Program_ToString :: "Program \<Rightarrow> string" where
  "Program_ToString (Program statements) = concat (map Statement_ToString statements)"

section \<open>Parser (parser/parser.go)\<close>

text \<open>
  A \<^verbatim>\<open>panic\<close> of the source is a value: either one of the parser's own messages, or the
  error value of \<^verbatim>\<open>strconv.ParseInt\<close> that \<^verbatim>\<open>literal\<close> passes to \<^verbatim>\<open>panic\<close>.
\<close>

datatype ParseIntErr = ErrSyntax | ErrRange

datatype panic = Message string | NumError string ParseIntErr

text \<open>
  The recursive-descent procedures call each other without a structural bound, so they take
  a fuel argument that bounds the depth of calls (one unit per call and per loop
  iteration). \<open>OutOfFuel\<close> is not an outcome of the source: theorems about a parse state it
  for every fuel from an explicit bound upwards.
\<close>

datatype 'a result = OK 'a | Panic panic | OutOfFuel

fun bind :: "'a result \<Rightarrow> ('a \<Rightarrow> 'b result) \<Rightarrow> 'b result" where
  "bind (OK x) f = f x"
| "bind (Panic e) f = Panic e"
| "bind OutOfFuel f = OutOfFuel"

subsection \<open>Integer conversion\<close>

text \<open>
  \<^verbatim>\<open>strconv.ParseInt(s, 0, 64)\<close> of Go's standard library, for the strings \<^verbatim>\<open>literal\<close> passes it:
  the value of a \<^verbatim>\<open>NUMBER\<close> token, a digit run. With base 0 a leading \<^verbatim>\<open>0\<close> selects base 8 for
  the rest of the string, otherwise the base is 10. The digits are accumulated from the left;
  a character that is not a digit below the base is a syntax error, a value beyond 64 bits
  (unsigned, during accumulation) or from \<open>2 ^ 63 = 9223372036854775808\<close> on (at the end) a
  range error. Not modelled
  are a sign, the prefixes \<^verbatim>\<open>0b\<close>, \<^verbatim>\<open>0o\<close>, \<^verbatim>\<open>0x\<close> and underscores, none of which a digit run
  contains.
\<close>

definition digit_val :: "char \<Rightarrow> nat option" where
  "digit_val c = (if is_digit c then Some (of_char c - 48) else None)"

definition maxUint64 :: nat where
  "maxUint64 = 18446744073709551615"

fun ParseUint_loop :: "nat \<Rightarrow> nat \<Rightarrow> string \<Rightarrow> ParseIntErr + nat" where
  "ParseUint_loop base n [] = Inr n"
| "ParseUint_loop base n (c # cs) =
     (case digit_val c of
        None \<Rightarrow> Inl ErrSyntax
      | Some d \<Rightarrow>
          if d \<ge> base then Inl ErrSyntax
          else if n \<ge> maxUint64 div base + 1 then Inl ErrRange
          else if n * base + d > maxUint64 then Inl ErrRange
          else ParseUint_loop base (n * base + d) cs)"

definition ParseInt :: "string \<Rightarrow> ParseIntErr + int" where
  "ParseInt s =
     (if s = [] then Inl ErrSyntax
      else case (if hd s = CHR ''0'' then ParseUint_loop 8 0 (tl s) else ParseUint_loop 10 0 s) of
             Inl e \<Rightarrow> Inl e
           | Inr un \<Rightarrow> if un \<ge> 9223372036854775808 then Inl ErrRange else Inr (int un))"

subsection \<open>Parser state and token consumption\<close>

record Parser =
  lookAhead :: Token
  scanner :: Tokenizer

definition Parser_New :: "string \<Rightarrow> Parser" where
  "Parser_New source = \<lparr>lookAhead = \<lparr>Type = EOF, Value = []\<rparr>, scanner = Tokenizer_New source\<rparr>"

definition eat :: "TokenType \<Rightarrow> Parser \<Rightarrow> (Token \<times> Parser) result" where
  "eat tokenType p =
     (let token = lookAhead p
      in if Type token = EOF
         then Panic (Message (''Unexpected end of input, expected: '' @ TokenNames tokenType))
         else if Type token \<noteq> tokenType
         then Panic (Message (''Unexpected token: '' @ TokenNames (Type token) @
                              '', expected: '' @ TokenNames tokenType))
         else (case GetNextToken (scanner p) of
                 (newToken, s') \<Rightarrow> OK (token, p\<lparr>lookAhead := newToken, scanner := s'\<rparr>)))"

definition isAssignmentOperator :: "TokenType \<Rightarrow> bool" where
  "isAssignmentOperator operator = (operator = SIMPLE_ASSIGN \<or> operator = COMPLEX_ASSIGN)"

definition assignmentOperator :: "Parser \<Rightarrow> (Token \<times> Parser) result" where
  "assignmentOperator p =
     (if Type (lookAhead p) = SIMPLE_ASSIGN then eat SIMPLE_ASSIGN p else eat COMPLEX_ASSIGN p)"

definition super :: "Parser \<Rightarrow> (Expression \<times> Parser) result" where
  "super p = bind (eat SUPER p) (\<lambda>(tok, p1). OK (SuperExpression, p1))"

definition "identifier" :: "Parser \<Rightarrow> (Expression \<times> Parser) result" where
  "identifier p = bind (eat IDENTIFIER p) (\<lambda>(tok, p1). OK (Identifier (Value tok), p1))"

definition isLiteral :: "TokenType \<Rightarrow> bool" where
  "isLiteral tokenType =
     (tokenType = NUMBER \<or> tokenType = STRING \<or> tokenType = TRUE \<or>
      tokenType = FALSE \<or> tokenType = NULL)"

definition literal :: "Parser \<Rightarrow> (Expression \<times> Parser) result" where
  "literal p =
     (if Type (lookAhead p) = NUMBER then
        bind (eat NUMBER p) (\<lambda>(tok, p1).
          case ParseInt (Value tok) of
            Inl err \<Rightarrow> Panic (NumError (Value tok) err)
          | Inr v \<Rightarrow> OK (NumericLiteral v, p1))
      else if Type (lookAhead p) = STRING then
        bind (eat STRING p) (\<lambda>(tok, p1). OK (StringLiteral (Value tok), p1))
      else if Type (lookAhead p) = TRUE then
        bind (eat TRUE p) (\<lambda>(tok, p1). OK (BooleanLiteral True, p1))
      else if Type (lookAhead p) = FALSE then
        bind (eat FALSE p) (\<lambda>(tok, p1). OK (BooleanLiteral False, p1))
      else if Type (lookAhead p) = NULL then
        bind (eat NULL p) (\<lambda>(tok, p1). OK (NullLiteral, p1))
      else Panic (Message ''Literal: unexpected literal production.''))"

subsection \<open>Expression grammar\<close>

text \<open>
  One function per procedure of the source, and one per \<^verbatim>\<open>for\<close> loop (suffix \<open>_loop\<close>,
  with the loop's running value as an argument).
\<close>

function (sequential) expression :: "nat \<Rightarrow> Parser \<Rightarrow> (Expression \<times> Parser) result"
  and assignmentExpression :: "nat \<Rightarrow> Parser \<Rightarrow> (Expression \<times> Parser) result"
  and logicalOrExpression :: "nat \<Rightarrow> Parser \<Rightarrow> (Expression \<times> Parser) result"
  and logicalOrExpression_loop :: "nat \<Rightarrow> Expression \<Rightarrow> Parser \<Rightarrow> (Expression \<times> Parser) result"
  and logicalAndExpression :: "nat \<Rightarrow> Parser \<Rightarrow> (Expression \<times> Parser) result"
  and logicalAndExpression_loop :: "nat \<Rightarrow> Expression \<Rightarrow> Parser \<Rightarrow> (Expression \<times> Parser) result"
  and equality :: "nat \<Rightarrow> Parser \<Rightarrow> (Expression \<times> Parser) result"
  and equality_loop :: "nat \<Rightarrow> Expression \<Rightarrow> Parser \<Rightarrow> (Expression \<times> Parser) result"
  and comparison :: "nat \<Rightarrow> Parser \<Rightarrow> (Expression \<times> Parser) result"
  and comparison_loop :: "nat \<Rightarrow> Expression \<Rightarrow> Parser \<Rightarrow> (Expression \<times> Parser) result"
  and "term" :: "nat \<Rightarrow> Parser \<Rightarrow> (Expression \<times> Parser) result"
  and term_loop :: "nat \<Rightarrow> Expression \<Rightarrow> Parser \<Rightarrow> (Expression \<times> Parser) result"
  and factor :: "nat \<Rightarrow> Parser \<Rightarrow> (Expression \<times> Parser) result"
  and factor_loop :: "nat \<Rightarrow> Expression \<Rightarrow> Parser \<Rightarrow> (Expression \<times> Parser) result"
  and unary :: "nat \<Rightarrow> Parser \<Rightarrow> (Expression \<times> Parser) result"
  and leftHandSideExp :: "nat \<Rightarrow> Parser \<Rightarrow> (Expression \<times> Parser) result"
  and callMemberExp :: "nat \<Rightarrow> Parser \<Rightarrow> (Expression \<times> Parser) result"
  and memberExp :: "nat \<Rightarrow> Parser \<Rightarrow> (Expression \<times> Parser) result"
  and memberExp_loop :: "nat \<Rightarrow> Expression \<Rightarrow> Parser \<Rightarrow> (Expression \<times> Parser) result"
  and callExpression :: "nat \<Rightarrow> Expression \<Rightarrow> Parser \<Rightarrow> (Expression \<times> Parser) result"
  and arguments :: "nat \<Rightarrow> Parser \<Rightarrow> (Expression list \<times> Parser) result"
  and argumentList :: "nat \<Rightarrow> Parser \<Rightarrow> (Expression list \<times> Parser) result"
  and argumentList_loop :: "nat \<Rightarrow> Expression list \<Rightarrow> Parser \<Rightarrow> (Expression list \<times> Parser) result"
  and primary :: "nat \<Rightarrow> Parser \<Rightarrow> (Expression \<times> Parser) result"
where
  "expression 0 p = OutOfFuel"
| "expression (Suc n) p = assignmentExpression n p"

| "assignmentExpression 0 p = OutOfFuel"
| "assignmentExpression (Suc n) p =
     bind (logicalOrExpression n p) (\<lambda>(left, p1).
       if \<not> isAssignmentOperator (Type (lookAhead p1)) then OK (left, p1)
       else bind (assignmentOperator p1) (\<lambda>(tok, p2).
            bind (assignmentExpression n p2) (\<lambda>(right, p3).
              OK (AssignmentExpression (Value tok) left right, p3))))"

| "logicalOrExpression 0 p = OutOfFuel"
| "logicalOrExpression (Suc n) p =
     bind (logicalAndExpression n p) (\<lambda>(left, p1). logicalOrExpression_loop n left p1)"
| "logicalOrExpression_loop 0 left p = OutOfFuel"
| "logicalOrExpression_loop (Suc n) left p =
     (if Type (lookAhead p) = LOGICAL_OR then
        bind (eat LOGICAL_OR p) (\<lambda>(tok, p1).
        bind (logicalAndExpression n p1) (\<lambda>(right, p2).
          logicalOrExpression_loop n (LogicalExpression (Value tok) left right) p2))
      else OK (left, p))"

| "logicalAndExpression 0 p = OutOfFuel"
| "logicalAndExpression (Suc n) p =
     bind (equality n p) (\<lambda>(left, p1). logicalAndExpression_loop n left p1)"
| "logicalAndExpression_loop 0 left p = OutOfFuel"
| "logicalAndExpression_loop (Suc n) left p =
     (if Type (lookAhead p) = LOGICAL_AND then
        bind (eat LOGICAL_AND p) (\<lambda>(tok, p1).
        bind (equality n p1) (\<lambda>(right, p2).
          logicalAndExpression_loop n (LogicalExpression (Value tok) left right) p2))
      else OK (left, p))"

| "equality 0 p = OutOfFuel"
| "equality (Suc n) p =
     bind (comparison n p) (\<lambda>(left, p1). equality_loop n left p1)"
| "equality_loop 0 left p = OutOfFuel"
| "equality_loop (Suc n) left p =
     (if Type (lookAhead p) = EQUALITY_OPERATOR then
        bind (eat EQUALITY_OPERATOR p) (\<lambda>(tok, p1).
        bind (comparison n p1) (\<lambda>(right, p2).
          equality_loop n (LogicalExpression (Value tok) left right) p2))
      else OK (left, p))"

| "comparison 0 p = OutOfFuel"
| "comparison (Suc n) p =
     bind (term n p) (\<lambda>(left, p1). comparison_loop n left p1)"
| "comparison_loop 0 left p = OutOfFuel"
| "comparison_loop (Suc n) left p =
     (if Type (lookAhead p) = RELATIONAL_OPERATOR then
        bind (eat RELATIONAL_OPERATOR p) (\<lambda>(tok, p1).
        bind (term n p1) (\<lambda>(right, p2).
          comparison_loop n (BinaryExpression (Value tok) left right) p2))
      else OK (left, p))"

| "term 0 p = OutOfFuel"
| "term (Suc n) p =
     bind (factor n p) (\<lambda>(left, p1). term_loop n left p1)"
| "term_loop 0 left p = OutOfFuel"
| "term_loop (Suc n) left p =
     (if Type (lookAhead p) = ADDITIVE_OPERATOR then
        bind (eat ADDITIVE_OPERATOR p) (\<lambda>(tok, p1).
        bind (factor n p1) (\<lambda>(right, p2).
          term_loop n (BinaryExpression (Value tok) left right) p2))
      else OK (left, p))"

| "factor 0 p = OutOfFuel"
| "factor (Suc n) p =
     bind (unary n p) (\<lambda>(left, p1). factor_loop n left p1)"
| "factor_loop 0 left p = OutOfFuel"
| "factor_loop (Suc n) left p =
     (if Type (lookAhead p) = MULTIPLICATIVE_OPERATOR then
        bind (eat MULTIPLICATIVE_OPERATOR p) (\<lambda>(tok, p1).
        bind (unary n p1) (\<lambda>(right, p2).
          factor_loop n (BinaryExpression (Value tok) left right) p2))
      else OK (left, p))"

| "unary 0 p = OutOfFuel"
| "unary (Suc n) p =
     bind (if Type (lookAhead p) = ADDITIVE_OPERATOR then
             bind (eat ADDITIVE_OPERATOR p) (\<lambda>(tok, p1). OK (Value tok, p1))
           else if Type (lookAhead p) = LOGICAL_NOT then
             bind (eat LOGICAL_NOT p) (\<lambda>(tok, p1). OK (Value tok, p1))
           else OK ([], p))
       (\<lambda>(operator, p1).
          if length operator > 0 then
            bind (unary n p1) (\<lambda>(right, p2). OK (UnaryExpression operator right, p2))
          else leftHandSideExp n p1)"

| "leftHandSideExp 0 p = OutOfFuel"
| "leftHandSideExp (Suc n) p = callMemberExp n p"

| "callMemberExp 0 p = OutOfFuel"
| "callMemberExp (Suc n) p =
     (if Type (lookAhead p) = SUPER then
        bind (super p) (\<lambda>(callee, p1). callExpression n callee p1)
      else
        bind (memberExp n p) (\<lambda>(member, p1).
          if Type (lookAhead p1) = LPAREN then callExpression n member p1
          else OK (member, p1)))"

| "memberExp 0 p = OutOfFuel"
| "memberExp (Suc n) p =
     bind (primary n p) (\<lambda>(object, p1). memberExp_loop n object p1)"
| "memberExp_loop 0 object p = OutOfFuel"
| "memberExp_loop (Suc n) object p =
     (if Type (lookAhead p) = DOT \<or> Type (lookAhead p) = LBRACKET then
        (if Type (lookAhead p) = DOT then
           bind (eat DOT p) (\<lambda>(tok, p1).
           bind (identifier p1) (\<lambda>(property, p2).
             memberExp_loop n (MemberExpression False object property) p2))
         else
           bind (eat LBRACKET p) (\<lambda>(tok, p1).
           bind (expression n p1) (\<lambda>(property, p2).
           bind (eat RBRACKET p2) (\<lambda>(tok', p3).
             memberExp_loop n (MemberExpression True object property) p3))))
      else OK (object, p))"

| "callExpression 0 callee p = OutOfFuel"
| "callExpression (Suc n) callee p =
     bind (arguments n p) (\<lambda>(args, p1).
       if Type (lookAhead p1) = LPAREN then callExpression n (CallExpression callee args) p1
       else OK (CallExpression callee args, p1))"

| "arguments 0 p = OutOfFuel"
| "arguments (Suc n) p =
     bind (eat LPAREN p) (\<lambda>(tok, p1).
     bind (if Type (lookAhead p1) \<noteq> RPAREN then argumentList n p1 else OK ([], p1))
       (\<lambda>(args, p2).
     bind (eat RPAREN p2) (\<lambda>(tok', p3). OK (args, p3))))"

| "argumentList 0 p = OutOfFuel"
| "argumentList (Suc n) p =
     bind (assignmentExpression n p) (\<lambda>(e, p1). argumentList_loop n [e] p1)"
| "argumentList_loop 0 args p = OutOfFuel"
| "argumentList_loop (Suc n) args p =
     (if Type (lookAhead p) = COMMA then
        bind (eat COMMA p) (\<lambda>(tok, p1).
        bind (assignmentExpression n p1) (\<lambda>(e, p2).
          argumentList_loop n (args @ [e]) p2))
      else OK (args, p))"

| "primary 0 p = OutOfFuel"
| "primary (Suc n) p =
     (if isLiteral (Type (lookAhead p)) then literal p
      else if Type (lookAhead p) = LPAREN then
        bind (eat LPAREN p) (\<lambda>(tok, p1).
        bind (expression n p1) (\<lambda>(exp, p2).
        bind (eat RPAREN p2) (\<lambda>(tok', p3). OK (exp, p3))))
      else if Type (lookAhead p) = IDENTIFIER then identifier p
      else if Type (lookAhead p) = THIS then
        bind (eat THIS p) (\<lambda>(tok, p1). OK (ThisExpression, p1))
      else if Type (lookAhead p) = NEW then
        bind (eat NEW p) (\<lambda>(tok, p1).
        bind (memberExp n p1) (\<lambda>(callee, p2).
        bind (arguments n p2) (\<lambda>(args, p3). OK (NewExpression callee args, p3))))
      else Panic (Message ''Unexpected primary expression.''))"
  by pat_completeness auto
termination
  by (relation "measure (case_sum (case_sum (case_sum (case_sum (\<lambda>(n, p). n) (case_sum (\<lambda>(n, p). n) (\<lambda>(n, p). n))) (case_sum (\<lambda>(n, x, p). n) (case_sum (\<lambda>(n, p). n) (\<lambda>(n, x, p). n)))) (case_sum (case_sum (\<lambda>(n, p). n) (case_sum (\<lambda>(n, x, p). n) (\<lambda>(n, p). n))) (case_sum (\<lambda>(n, x, p). n) (case_sum (\<lambda>(n, p). n) (\<lambda>(n, x, p). n))))) (case_sum (case_sum (case_sum (\<lambda>(n, p). n) (case_sum (\<lambda>(n, x, p). n) (\<lambda>(n, p). n))) (case_sum (\<lambda>(n, p). n) (case_sum (\<lambda>(n, p). n) (\<lambda>(n, p). n)))) (case_sum (case_sum (\<lambda>(n, x, p). n) (case_sum (\<lambda>(n, x, p). n) (\<lambda>(n, p). n))) (case_sum (\<lambda>(n, p). n) (case_sum (\<lambda>(n, x, p). n) (\<lambda>(n, p). n))))))") simp_all

subsection \<open>Statements and programs\<close>

definition expressionStatement :: "nat \<Rightarrow> Parser \<Rightarrow> (Statement \<times> Parser) result" where
  "expressionStatement n p = bind (expression n p) (\<lambda>(e, p1). OK (ExpressionStatement e, p1))"

definition statement :: "nat \<Rightarrow> Parser \<Rightarrow> (Statement \<times> Parser) result" where
  "statement n p = expressionStatement n p"

fun statementList_loop ::
  "nat \<Rightarrow> TokenType \<Rightarrow> Statement list \<Rightarrow> Parser \<Rightarrow> (Statement list \<times> Parser) result" where
  "statementList_loop 0 stopLookAhead statements p = OutOfFuel"
| "statementList_loop (Suc n) stopLookAhead statements p =
     (if Type (lookAhead p) \<noteq> stopLookAhead then
        bind (statement n p) (\<lambda>(s, p1). statementList_loop n stopLookAhead (statements @ [s]) p1)
      else OK (statements, p))"

definition statementList :: "nat \<Rightarrow> TokenType \<Rightarrow> Parser \<Rightarrow> (Statement list \<times> Parser) result" where
  "statementList n stopLookAhead p = statementList_loop n stopLookAhead [] p"

definition program :: "nat \<Rightarrow> Parser \<Rightarrow> (Program \<times> Parser) result" where
  "program n p = bind (statementList n EOF p) (\<lambda>(statements, p1). OK (Program statements, p1))"

definition Parse :: "nat \<Rightarrow> Parser \<Rightarrow> (Program \<times> Parser) result" where
  "Parse n p =
     (case GetNextToken (scanner p) of
        (tok, s') \<Rightarrow> program n (p\<lparr>lookAhead := tok, scanner := s'\<rparr>))"

definition parse_source :: "nat \<Rightarrow> string \<Rightarrow> Program result" where
  \<comment> \<open>\<^verbatim>\<open>parser.New(source).Parse()\<close>, as \<^verbatim>\<open>main\<close> calls it\<close>
  "parse_source n source = bind (Parse n (Parser_New source)) (\<lambda>(prog, p). OK prog)"

section \<open>Vocabulary of the properties\<close>

abbreviation DQ :: char where "DQ \<equiv> CHR 0x22"  \<comment> \<open>the double quote\<close>
abbreviation SQ :: char where "SQ \<equiv> CHR 0x27"  \<comment> \<open>the single quote\<close>
abbreviation LF :: char where "LF \<equiv> CHR 0x0A"  \<comment> \<open>the line feed\<close>

fun mentions :: "string \<Rightarrow> string \<Rightarrow> bool" where
  \<comment> \<open>\<open>mentions w s\<close>: the word \<open>w\<close> occurs in the message \<open>s\<close>\<close>
  "mentions w [] = (w = [])"
| "mentions w (c # cs) = (starts_with w (c # cs) \<or> mentions w cs)"

text \<open>
  \<open>consumes p p'\<close>: the state \<open>p'\<close> is reached from \<open>p\<close> by one or more successful calls of
  \<^verbatim>\<open>eat\<close>, none of them for a \<^verbatim>\<open>SEMICOLON\<close> or an \<^verbatim>\<open>ERROR\<close> token.
\<close>

inductive consumes :: "Parser \<Rightarrow> Parser \<Rightarrow> bool" where
  one: "eat ty p = OK (tok, p') \<Longrightarrow> ty \<noteq> SEMICOLON \<Longrightarrow> ty \<noteq> ERROR \<Longrightarrow> consumes p p'"
| more: "consumes p p' \<Longrightarrow> consumes p' p'' \<Longrightarrow> consumes p p''"

text \<open>A result that, when it is a success, has consumed at least one token (\<open>adv\<close>) or any number (\<open>adv0\<close>).\<close>

definition adv :: "Parser \<Rightarrow> ('a \<times> Parser) result \<Rightarrow> bool" where
  "adv p r = (\<forall>x p'. r = OK (x, p') \<longrightarrow> consumes p p')"

definition adv0 :: "Parser \<Rightarrow> ('a \<times> Parser) result \<Rightarrow> bool" where
  "adv0 p r = (\<forall>x p'. r = OK (x, p') \<longrightarrow> p' = p \<or> consumes p p')"

text \<open>
  The measure of what a parser state has left to read: the characters behind the cursor,
  and the lookahead when it is a proper token.
\<close>

definition remaining :: "Parser \<Rightarrow> nat" where
  "remaining p = 2 * (length (input (scanner p)) - cursor (scanner p)) +
     (if Type (lookAhead p) = EOF \<or> Type (lookAhead p) = ERROR then 0 else 1)"

text \<open>A result of the source, not an exhausted fuel.\<close>

definition returns :: "'a result \<Rightarrow> bool" where
  "returns r = (r \<noteq> OutOfFuel)"

text \<open>The parser state after \<^verbatim>\<open>Parse\<close> has fetched the first token.\<close>

definition first_state :: "string \<Rightarrow> Parser" where
  "first_state src =
     (case GetNextToken (Tokenizer_New src) of
        (tok, s') \<Rightarrow> \<lparr>lookAhead = tok, scanner = s'\<rparr>)"

text \<open>An \<^verbatim>\<open>EOF\<close> lookahead stands for a tokenizer at the end of its input.\<close>

definition eof_consistent :: "Parser \<Rightarrow> bool" where
  "eof_consistent p = (Type (lookAhead p) = EOF \<longrightarrow> \<not> hasMoreTokens (scanner p))"

text \<open>No token from the lookahead on is a \<^verbatim>\<open>SEMICOLON\<close>.\<close>

definition semicolon_free :: "Parser \<Rightarrow> bool" where
  "semicolon_free p = (\<forall>k. SEMICOLON \<notin> set (map Type (lookAhead p # GetNextTokens k (scanner p))))"

subsection \<open>Rendering and re-parsing\<close>

text \<open>
  The parser state after the lookahead has been consumed: the next token is fetched.
\<close>

definition after :: "Parser \<Rightarrow> Parser" where
  "after p = (case GetNextToken (scanner p) of (tok, s') \<Rightarrow> p\<lparr>lookAhead := tok, scanner := s'\<rparr>)"

text \<open>
  \<open>at p s\<close>: the lookahead of \<open>p\<close> is the token read from the text \<open>s\<close>, and the scanner of \<open>p\<close>
  stands right after that token.
\<close>

definition at :: "Parser \<Rightarrow> string \<Rightarrow> bool" where
  "at p s = (\<exists>i c. drop c i = s \<and>
       GetNextToken \<lparr>input = i, cursor = c\<rparr> = (lookAhead p, scanner p))"

text \<open>
  \<open>lexes v T s\<close>: wherever the text \<open>v @ s\<close> stands in an input, the next token is \<open>v\<close> with type
  \<open>T\<close>, and the cursor moves over \<open>v\<close>.
\<close>

definition lexes :: "string \<Rightarrow> TokenType \<Rightarrow> string \<Rightarrow> bool" where
  "lexes v T s = (\<forall>i c. drop c i = v @ s \<longrightarrow>
       GetNextToken \<lparr>input = i, cursor = c\<rparr> =
         (\<lparr>Type = T, Value = v\<rparr>, \<lparr>input = i, cursor = c + length v\<rparr>))"

text \<open>
  \<open>skips w s\<close>: before the text \<open>s\<close>, the text \<open>w\<close> is passed over without a token.
\<close>

definition skips :: "string \<Rightarrow> string \<Rightarrow> bool" where
  "skips w s = (\<forall>i c. drop c i = w @ s \<longrightarrow>
       GetNextToken \<lparr>input = i, cursor = c\<rparr> = GetNextToken \<lparr>input = i, cursor = c + length w\<rparr>)"

text \<open>
  The text does not go on with a word character.
\<close>

definition nw :: "string \<Rightarrow> bool" where
  "nw s = (case s of [] \<Rightarrow> True | c # _ \<Rightarrow> \<not> is_word c)"

text \<open>
  The text begins with an opening parenthesis, a word character or a quote.
\<close>

definition unit_start :: "string \<Rightarrow> bool" where
  "unit_start s = (case s of [] \<Rightarrow> False | c # _ \<Rightarrow> c = CHR ''('' \<or> is_word c \<or> c = DQ \<or> c = SQ)"

text \<open>
  The reserved words of the table \<^verbatim>\<open>Spec\<close>.
\<close>

definition keyword_list :: "string list" where
  "keyword_list = [''let'', ''if'', ''else'', ''true'', ''false'', ''null'', ''def'', ''return'',
     ''class'', ''this'', ''extends'', ''super'', ''new'', ''while'', ''do'', ''for'']"

text \<open>
  A name that the tokenizer reads as one \<^verbatim>\<open>IDENTIFIER\<close> token.
\<close>

definition valid_name :: "string \<Rightarrow> bool" where
  "valid_name v = (v \<noteq> [] \<and> list_all is_word v \<and> \<not> is_digit (hd v) \<and> v \<notin> set keyword_list)"

text \<open>
  A string literal as the tokenizer reads it: a quote, a body without that quote, and the
  quote again.
\<close>

definition quoted :: "string \<Rightarrow> bool" where
  "quoted v =
     (case v of
        [] \<Rightarrow> False
      | q # r \<Rightarrow> (q = DQ \<or> q = SQ) \<and> r \<noteq> [] \<and> last r = q \<and> q \<notin> set (butlast r))"

text \<open>
  \<open>parses f K p x p'\<close>: from the state \<open>p\<close>, with any fuel from \<open>K\<close> on, \<open>f\<close> returns \<open>x\<close> and the
  state \<open>p'\<close>.
\<close>

definition parses :: "(nat \<Rightarrow> Parser \<Rightarrow> ('a \<times> Parser) result) \<Rightarrow> nat \<Rightarrow> Parser \<Rightarrow> 'a \<Rightarrow> Parser \<Rightarrow> bool" where
  "parses f K p x p' = (\<forall>n\<ge>K. f n p = OK (x, p'))"

text \<open>
  \<open>next_is s T\<close>: the first token of the text \<open>s\<close> has type \<open>T\<close>.
\<close>

definition next_is :: "string \<Rightarrow> TokenType \<Rightarrow> bool" where
  "next_is s T = (\<forall>p. at p s \<longrightarrow> Type (lookAhead p) = T)"

text \<open>
  The token types that end an expression inside a rendering.
\<close>

definition stops :: "TokenType \<Rightarrow> bool" where
  "stops T = (T = RPAREN \<or> T = RBRACKET \<or> T = COMMA \<or> T = EOF)"

text \<open>
  The node is a call.
\<close>

fun is_call :: "Expression \<Rightarrow> bool" where
  "is_call (CallExpression callee args) = True"
| "is_call _ = False"

text \<open>
  The trees whose rendering is read back: numeric literals in the range of \<^verbatim>\<open>ParseInt\<close>,
  quoted strings, booleans, \<^verbatim>\<open>null\<close>, \<^verbatim>\<open>this\<close>, identifiers that are identifier tokens, unary, binary and logical
  nodes with an operator token, calls (also of \<^verbatim>\<open>super\<close>), and member accesses whose object is
  not a call and whose dotted property is an identifier.
\<close>

fun printable :: "Expression \<Rightarrow> bool" where
  "printable (NumericLiteral v) = (0 \<le> v \<and> v < 9223372036854775808)"
| "printable (StringLiteral v) = quoted v"
| "printable (BooleanLiteral b) = True"
| "printable NullLiteral = True"
| "printable (AssignmentExpression operator left right) = False"
| "printable (LogicalExpression operator left right) =
     (operator \<in> set [''||'', ''&&'', ''=='', ''!=''] \<and> printable left \<and> printable right)"
| "printable (BinaryExpression operator left right) =
     (operator \<in> set [''*'', ''/'', ''+'', ''-'', ''<'', ''>'', ''<='', ''>='']
      \<and> printable left \<and> printable right)"
| "printable (UnaryExpression operator right) =
     (operator \<in> set [''+'', ''-'', ''!''] \<and> printable right)"
| "printable (CallExpression callee args) =
     ((callee = SuperExpression \<or> printable callee) \<and> (\<forall>a \<in> set args. printable a))"
| "printable (MemberExpression computed object property) =
     (printable object \<and> \<not> is_call object \<and>
      (if computed then printable property
       else (case property of Identifier v \<Rightarrow> valid_name v | _ \<Rightarrow> False)))"
| "printable SuperExpression = False"
| "printable (Identifier v) = valid_name v"
| "printable ThisExpression = True"
| "printable (NewExpression callee args) = False"

text \<open>
  A fuel that suffices to parse the rendering of a tree.
\<close>

fun fuel :: "Expression \<Rightarrow> nat" where
  "fuel (AssignmentExpression operator left right) = fuel left + fuel right + 40"
| "fuel (LogicalExpression operator left right) = fuel left + fuel right + 40"
| "fuel (BinaryExpression operator left right) = fuel left + fuel right + 40"
| "fuel (UnaryExpression operator right) = fuel right + 40"
| "fuel (CallExpression callee args) = fuel callee + sum_list (map (\<lambda>a. fuel a + 20) args) + 40"
| "fuel (MemberExpression computed object property) = fuel object + fuel property + 40"
| "fuel (NewExpression callee args) = fuel callee + sum_list (map (\<lambda>a. fuel a + 20) args) + 40"
| "fuel _ = 20"

text \<open>
  The fuel that \<^verbatim>\<open>memberExp\<close> has used when the loop has built a chain of member accesses.
\<close>

fun chain_len :: "Expression \<Rightarrow> nat" where
  "chain_len (MemberExpression computed object property) = chain_len object + 1"
| "chain_len _ = 1"

text \<open>
  The fuel that \<^verbatim>\<open>callMemberExp\<close> has used when a chain of calls has been built.
\<close>

fun call_len :: "Expression \<Rightarrow> nat" where
  "call_len (CallExpression callee args) = (if is_call callee then call_len callee + 1 else 2)"
| "call_len _ = 0"

text \<open>
  \<open>reparses t\<close>: on the rendering of \<open>t\<close>, followed by any text \<open>s\<close> that starts no word,
  \<^verbatim>\<open>memberExp\<close> (for a call: \<^verbatim>\<open>callMemberExp\<close>) reads \<open>t\<close> and stands at \<open>s\<close>.
\<close>

definition reparses :: "Expression \<Rightarrow> bool" where
  "reparses t = (\<forall>p s. at p (ToString t @ s) \<longrightarrow> nw s \<longrightarrow>
     (\<exists>p'. at p' s \<and>
        (if is_call t
         then (\<forall>n\<ge>fuel t. callMemberExp n p =
                 (if Type (lookAhead p') = LPAREN then callExpression (n - call_len t) t p'
                  else OK (t, p')))
         else (\<forall>n\<ge>fuel t. memberExp n p = memberExp_loop (n - chain_len t) t p'))))"

text \<open>
  The types of the first token of a rendering.
\<close>

definition firsts :: "TokenType set" where
  "firsts = {LPAREN, IDENTIFIER, NUMBER, STRING, TRUE, FALSE, NULL, THIS}"

text \<open>
  A token as the tokenizer makes it: an identifier is a name, a string is quoted, an
  operator token holds an operator of its type.
\<close>

definition tok_ok :: "Token \<Rightarrow> bool" where
  "tok_ok tok =
     (case Type tok of
        IDENTIFIER \<Rightarrow> valid_name (Value tok)
      | STRING \<Rightarrow> quoted (Value tok)
      | ADDITIVE_OPERATOR \<Rightarrow> Value tok \<in> set [''+'', ''-'']
      | MULTIPLICATIVE_OPERATOR \<Rightarrow> Value tok \<in> set [''*'', ''/'']
      | RELATIONAL_OPERATOR \<Rightarrow> Value tok \<in> set [''<'', ''>'', ''<='', ''>='']
      | EQUALITY_OPERATOR \<Rightarrow> Value tok \<in> set [''=='', ''!='']
      | LOGICAL_AND \<Rightarrow> Value tok = ''&&''
      | LOGICAL_OR \<Rightarrow> Value tok = ''||''
      | LOGICAL_NOT \<Rightarrow> Value tok = ''!''
      | _ \<Rightarrow> True)"

text \<open>
  A tree as the parser makes it from such tokens: operators of the node's kind, names as
  identifiers, numbers in the range of \<^verbatim>\<open>ParseInt\<close>, an identifier after a dot.
\<close>

fun well_formed :: "Expression \<Rightarrow> bool" where
  "well_formed (NumericLiteral v) = (0 \<le> v \<and> v < 9223372036854775808)"
| "well_formed (StringLiteral v) = quoted v"
| "well_formed (AssignmentExpression operator left right) = (well_formed left \<and> well_formed right)"
| "well_formed (LogicalExpression operator left right) =
     (operator \<in> set [''||'', ''&&'', ''=='', ''!=''] \<and> well_formed left \<and> well_formed right)"
| "well_formed (BinaryExpression operator left right) =
     (operator \<in> set [''*'', ''/'', ''+'', ''-'', ''<'', ''>'', ''<='', ''>='']
      \<and> well_formed left \<and> well_formed right)"
| "well_formed (UnaryExpression operator right) =
     (operator \<in> set [''+'', ''-'', ''!''] \<and> well_formed right)"
| "well_formed (CallExpression callee args) =
     (well_formed callee \<and> (\<forall>a \<in> set args. well_formed a))"
| "well_formed (MemberExpression computed object property) =
     (well_formed object \<and> well_formed property \<and>
      (computed \<or> (case property of Identifier v \<Rightarrow> True | _ \<Rightarrow> False)))"
| "well_formed (Identifier v) = valid_name v"
| "well_formed (NewExpression callee args) =
     (well_formed callee \<and> (\<forall>a \<in> set args. well_formed a))"
| "well_formed _ = True"

text \<open>
  \<open>yields Q r\<close>: when \<open>r\<close> is a success, its value satisfies \<open>Q\<close> and the lookahead is a token as
  the tokenizer makes it.
\<close>

definition yields :: "('a \<Rightarrow> bool) \<Rightarrow> ('a \<times> Parser) result \<Rightarrow> bool" where
  "yields Q r = (case r of OK (x, p') \<Rightarrow> Q x \<and> tok_ok (lookAhead p') | _ \<Rightarrow> True)"

text \<open>
  All trees of a list are well formed.
\<close>

abbreviation (input) wfs :: "Expression list \<Rightarrow> bool" where
  "wfs xs \<equiv> \<forall>a \<in> set xs. well_formed a"

text \<open>
  The pure arithmetic, logical, member and call expressions in which no member access has a
  call as its object: numeric, string, boolean and \<^verbatim>\<open>null\<close> literals, identifiers, \<^verbatim>\<open>this\<close>, unary,
  binary and logical nodes, calls (also of \<^verbatim>\<open>super\<close>) and member accesses.
\<close>

fun pure_expression :: "Expression \<Rightarrow> bool" where
  "pure_expression (NumericLiteral v) = True"
| "pure_expression (StringLiteral v) = True"
| "pure_expression (BooleanLiteral b) = True"
| "pure_expression NullLiteral = True"
| "pure_expression (AssignmentExpression operator left right) = False"
| "pure_expression (LogicalExpression operator left right) =
     (pure_expression left \<and> pure_expression right)"
| "pure_expression (BinaryExpression operator left right) =
     (pure_expression left \<and> pure_expression right)"
| "pure_expression (UnaryExpression operator right) = pure_expression right"
| "pure_expression (CallExpression callee args) =
     ((callee = SuperExpression \<or> pure_expression callee) \<and> (\<forall>a \<in> set args. pure_expression a))"
| "pure_expression (MemberExpression computed object property) =
     (pure_expression object \<and> \<not> is_call object \<and> pure_expression property)"
| "pure_expression SuperExpression = False"
| "pure_expression (Identifier v) = True"
| "pure_expression ThisExpression = True"
| "pure_expression (NewExpression callee args) = False"

section \<open>Evaluation\<close>

lemmas rx_defs = rx_plus_def rx_line_comment_def rx_block_comment_def rx_lit_def rx_class_def
  rx_class_eq_def rx_relational_def rx_keyword_def rx_quoted_def starts_with_def
  is_space_def is_digit_def is_word_def

lemmas tok_defs = GetNextToken.simps Spec_def match_def hasMoreTokens_def Tokenizer_New_def Let_def

lemmas parser_defs = parse_source_def Parse_def Parser_New_def program_def statementList_def
  statement_def expressionStatement_def eat_def isAssignmentOperator_def assignmentOperator_def
  super_def identifier_def isLiteral_def literal_def

lemma fuel_add: "numeral v + (k::nat) = Suc (pred_numeral v + k)"
  by (simp add: numeral_eq_Suc)

lemma GetNextTokens_numeral:
  "GetNextTokens (numeral v) t =
     (case GetNextToken t of (tok, t') \<Rightarrow> tok # GetNextTokens (pred_numeral v) t')"
  by (simp add: numeral_eq_Suc)

lemma ParseInt_digits [simp]:
  "ParseInt ''1'' = Inr 1" "ParseInt ''2'' = Inr 2" "ParseInt ''3'' = Inr 3"
  "ParseInt ''5'' = Inr 5" "ParseInt ''010'' = Inr 8" "ParseInt ''09'' = Inl ErrSyntax"
  by (simp_all add: ParseInt_def digit_val_def maxUint64_def is_digit_def)

lemma takeWhile_upto: "q \<notin> set s \<Longrightarrow> takeWhile (\<lambda>x. x \<noteq> q) (s @ q # rest) = s"
  by (induction s) auto

lemma rx_quoted_whole: "q \<notin> set s \<Longrightarrow> rx_quoted q (q # s @ [q]) = q # s @ [q]"
  by (simp add: rx_quoted_def starts_with_def takeWhile_upto Let_def)

lemma rx_quoted_other: "c \<noteq> q \<Longrightarrow> rx_quoted q (c # rest) = []"
  by (simp add: rx_quoted_def)

lemmas literal_start_defs = rx_plus_def rx_line_comment_def rx_block_comment_def rx_lit_def
  rx_class_def rx_class_eq_def rx_relational_def rx_keyword_def starts_with_def
  is_space_def is_digit_def is_word_def rx_quoted_whole rx_quoted_other

lemma first_token_DQ:
  "DQ \<notin> set s \<Longrightarrow> GetNextToken (Tokenizer_New (DQ # s @ [DQ])) =
     (\<lparr>Type = STRING, Value = DQ # s @ [DQ]\<rparr>, \<lparr>input = DQ # s @ [DQ], cursor = length s + 2\<rparr>)"
  by (simp add: tok_defs literal_start_defs split: list.splits)

lemma first_token_SQ:
  "SQ \<notin> set s \<Longrightarrow> GetNextToken (Tokenizer_New (SQ # s @ [SQ])) =
     (\<lparr>Type = STRING, Value = SQ # s @ [SQ]\<rparr>, \<lparr>input = SQ # s @ [SQ], cursor = length s + 2\<rparr>)"
  by (simp add: tok_defs literal_start_defs split: list.splits)

lemma parse_DQ:
  "DQ \<notin> set s \<Longrightarrow> parse_source (40 + k) (DQ # s @ [DQ]) =
     OK (Program [ExpressionStatement (StringLiteral (DQ # s @ [DQ]))])"
  by (simp add: fuel_add parser_defs tok_defs literal_start_defs split: list.splits)

lemma parse_SQ:
  "SQ \<notin> set s \<Longrightarrow> parse_source (40 + k) (SQ # s @ [SQ]) =
     OK (Program [ExpressionStatement (StringLiteral (SQ # s @ [SQ]))])"
  by (simp add: fuel_add parser_defs tok_defs literal_start_defs split: list.splits)

lemma GetNextToken_not_IGNORE:
  "Type (fst (GetNextToken t)) \<noteq> IGNORE"
  "Type (fst (rules_loop rs inp t)) \<noteq> IGNORE"
  by (induction t and rs inp t rule: GetNextToken_rules_loop.induct)
     (auto simp: GetNextToken.simps split: prod.splits)

section \<open>Progress and termination of the parser\<close>

lemma bind_OK: "bind m f = OK y \<longleftrightarrow> (\<exists>x. m = OK x \<and> f x = OK y)"
  by (cases m) auto

lemma adv_imp_adv0: "adv p r \<Longrightarrow> adv0 p r"
  by (auto simp: adv_def adv0_def)

lemma adv_bind: "adv p m \<Longrightarrow> (\<And>x p1. adv0 p1 (f x p1)) \<Longrightarrow> adv p (bind m (case_prod f))"
  by (fastforce simp: adv_def adv0_def bind_OK intro: consumes.more)

lemma adv_bind': "adv0 p m \<Longrightarrow> (\<And>x p1. adv p1 (f x p1)) \<Longrightarrow> adv p (bind m (case_prod f))"
  by (fastforce simp: adv_def adv0_def bind_OK intro: consumes.more)

lemma adv0_bind: "adv0 p m \<Longrightarrow> (\<And>x p1. adv0 p1 (f x p1)) \<Longrightarrow> adv0 p (bind m (case_prod f))"
  by (fastforce simp: adv_def adv0_def bind_OK intro: consumes.more)

lemma adv0_OK [simp]: "adv0 p (OK (x, p))"
  by (simp add: adv0_def)

lemma adv_Panic [simp]: "adv p (Panic e)" "adv0 p (Panic e)" "adv p OutOfFuel" "adv0 p OutOfFuel"
  by (simp_all add: adv_def adv0_def)

lemma adv_eat: "ty \<noteq> SEMICOLON \<Longrightarrow> ty \<noteq> ERROR \<Longrightarrow> adv p (eat ty p)"
  by (auto simp: adv_def intro: consumes.one)

lemma adv_eats [simp]:
  "ty \<noteq> SEMICOLON \<Longrightarrow> ty \<noteq> ERROR \<Longrightarrow> adv p (eat ty p)"
  "ty \<noteq> SEMICOLON \<Longrightarrow> ty \<noteq> ERROR \<Longrightarrow> adv0 p (eat ty p)"
  by (auto simp: adv_eat adv_imp_adv0)

lemma adv_leaves:
  "adv p (identifier p)" "adv p (literal p)" "adv p (super p)" "adv p (assignmentOperator p)"
  by (auto simp: identifier_def literal_def super_def assignmentOperator_def
      intro!: adv_bind split: sum.splits)

lemmas adv_leaves0 = adv_leaves [THEN adv_imp_adv0]

declare adv_leaves [simp] adv_leaves0 [simp]

lemma adv_all:
  "(\<forall>p. adv p (expression n p)) \<and>
   (\<forall>p. adv p (assignmentExpression n p)) \<and>
   (\<forall>p. adv p (logicalOrExpression n p)) \<and>
   (\<forall>p l. adv0 p (logicalOrExpression_loop n l p)) \<and>
   (\<forall>p. adv p (logicalAndExpression n p)) \<and>
   (\<forall>p l. adv0 p (logicalAndExpression_loop n l p)) \<and>
   (\<forall>p. adv p (equality n p)) \<and>
   (\<forall>p l. adv0 p (equality_loop n l p)) \<and>
   (\<forall>p. adv p (comparison n p)) \<and>
   (\<forall>p l. adv0 p (comparison_loop n l p)) \<and>
   (\<forall>p. adv p (term n p)) \<and>
   (\<forall>p l. adv0 p (term_loop n l p)) \<and>
   (\<forall>p. adv p (factor n p)) \<and>
   (\<forall>p l. adv0 p (factor_loop n l p)) \<and>
   (\<forall>p. adv p (unary n p)) \<and>
   (\<forall>p. adv p (leftHandSideExp n p)) \<and>
   (\<forall>p. adv p (callMemberExp n p)) \<and>
   (\<forall>p. adv p (memberExp n p)) \<and>
   (\<forall>p l. adv0 p (memberExp_loop n l p)) \<and>
   (\<forall>p c. adv p (callExpression n c p)) \<and>
   (\<forall>p. adv p (arguments n p)) \<and>
   (\<forall>p. adv p (argumentList n p)) \<and>
   (\<forall>p l. adv0 p (argumentList_loop n l p)) \<and>
   (\<forall>p. adv p (primary n p))"
proof (induction n)
  case 0
  show ?case by simp
next
  case (Suc n)
  note IH = Suc.IH
  have IH0: "adv0 p (expression n p)" "adv0 p (assignmentExpression n p)"
    "adv0 p (logicalOrExpression n p)" "adv0 p (logicalAndExpression n p)"
    "adv0 p (equality n p)" "adv0 p (comparison n p)" "adv0 p (term n p)" "adv0 p (factor n p)"
    "adv0 p (unary n p)" "adv0 p (leftHandSideExp n p)" "adv0 p (callMemberExp n p)"
    "adv0 p (memberExp n p)" "adv0 p (callExpression n c p)" "adv0 p (arguments n p)"
    "adv0 p (argumentList n p)" "adv0 p (primary n p)" for p c
    using IH by (simp_all add: adv_imp_adv0)
  show ?case
    by (intro conjI allI) (auto intro!: adv_bind adv0_bind simp: IH IH0)
qed

lemma GetNextToken_progress:
  "GetNextToken t = (tok, t') \<Longrightarrow>
     input t' = input t \<and> cursor t \<le> cursor t' \<and>
     (Type tok \<noteq> EOF \<longrightarrow> Type tok \<noteq> ERROR \<longrightarrow> cursor t < cursor t' \<and> cursor t < length (input t)) \<and>
     (Type tok = EOF \<longrightarrow> \<not> hasMoreTokens t')"
  "hasMoreTokens t \<Longrightarrow> EOF \<notin> RuleType ` set rs \<Longrightarrow> rules_loop rs inp t = (tok, t') \<Longrightarrow>
     input t' = input t \<and> cursor t \<le> cursor t' \<and>
     (Type tok \<noteq> EOF \<longrightarrow> Type tok \<noteq> ERROR \<longrightarrow> cursor t < cursor t') \<and>
     (Type tok = EOF \<longrightarrow> \<not> hasMoreTokens t')"
proof (induction t and rs inp t arbitrary: tok t' and tok t' rule: GetNextToken_rules_loop.induct)
  case (1 t)
  show ?case
  proof (cases "hasMoreTokens t")
    case True
    with "1.prems" have r: "rules_loop Spec (drop (cursor t) (input t)) t = (tok, t')"
      by (simp add: GetNextToken.simps)
    have "EOF \<notin> RuleType ` set Spec"
      by (simp add: Spec_def)
    from "1.IH" [OF _ True this r] True show ?thesis
      by (auto simp add: hasMoreTokens_def)
  next
    case False
    with "1.prems" show ?thesis
      by (auto simp add: GetNextToken.simps)
  qed
next
  case (2 inp t)
  then show ?case by auto
next
  case (3 regExp rest inp t)
  obtain v t1 where m: "match (RegEx regExp) inp t = (v, t1)"
    by (cases "match (RegEx regExp) inp t")
  show ?case
  proof (cases "length v = 0")
    case True
    then have "t1 = t" using m by (auto simp: match_def Let_def split: if_splits)
    with "3.prems" m True have "rules_loop rest inp t = (tok, t')" by simp
    from "3.IH"(1) [OF m [symmetric] True] \<open>t1 = t\<close> "3.prems"(1,2) this
    show ?thesis by simp
  next
    case False
    then have t1: "input t1 = input t" "cursor t < cursor t1"
      using m by (auto simp: match_def Let_def split: if_splits)
    show ?thesis
    proof (cases "RuleType regExp = IGNORE")
      case True
      with "3.prems" m False have g: "GetNextToken t1 = (tok, t')" by simp
      from "3.IH"(2) [OF m [symmetric] False True g] t1 show ?thesis by auto
    next
      case ni: False
      with "3.prems" m False have "tok = \<lparr>Type = RuleType regExp, Value = v\<rparr>" "t' = t1"
        by simp_all
      with t1 "3.prems"(2) show ?thesis by auto
    qed
  qed
qed

lemma eat_decreases:
  assumes "eat ty p = OK (tok, p')" and "ty \<noteq> ERROR"
  shows "remaining p' < remaining p"
proof -
  obtain tok' s' where g: "GetNextToken (scanner p) = (tok', s')"
    by (cases "GetNextToken (scanner p)")
  from assms g have la: "Type (lookAhead p) = ty" "ty \<noteq> EOF"
    and p': "p' = p\<lparr>lookAhead := tok', scanner := s'\<rparr>"
    by (auto simp: eat_def Let_def split: if_splits)
  from GetNextToken_progress(1) [OF g] la assms(2) p' show ?thesis
    by (auto simp: remaining_def)
qed

lemma consumes_decreases: "consumes p p' \<Longrightarrow> remaining p' < remaining p"
  by (induction rule: consumes.induct) (auto dest: eat_decreases)

lemma adv_decreases: "adv p r \<Longrightarrow> r = OK (x, p') \<Longrightarrow> remaining p' < remaining p"
  by (auto simp: adv_def dest: consumes_decreases)

lemma adv0_decreases: "adv0 p r \<Longrightarrow> r = OK (x, p') \<Longrightarrow> remaining p' \<le> remaining p"
  by (auto simp: adv0_def dest: consumes_decreases less_imp_le)

lemma adv_parse:
  "adv p (expression n p)"
  "adv p (assignmentExpression n p)"
  "adv p (logicalOrExpression n p)"
  "adv0 p (logicalOrExpression_loop n l p)"
  "adv p (logicalAndExpression n p)"
  "adv0 p (logicalAndExpression_loop n l p)"
  "adv p (equality n p)"
  "adv0 p (equality_loop n l p)"
  "adv p (comparison n p)"
  "adv0 p (comparison_loop n l p)"
  "adv p (term n p)"
  "adv0 p (term_loop n l p)"
  "adv p (factor n p)"
  "adv0 p (factor_loop n l p)"
  "adv p (unary n p)"
  "adv p (leftHandSideExp n p)"
  "adv p (callMemberExp n p)"
  "adv p (memberExp n p)"
  "adv0 p (memberExp_loop n l p)"
  "adv p (callExpression n l p)"
  "adv p (arguments n p)"
  "adv p (argumentList n p)"
  "adv0 p (argumentList_loop n ls p)"
  "adv p (primary n p)"
  using adv_all [of n] by simp_all

lemma returns_simps [simp]: "returns (OK x)" "returns (Panic e)" "\<not> returns OutOfFuel"
  by (simp_all add: returns_def)

lemma returns_bind:
  "adv p m \<Longrightarrow> returns m \<Longrightarrow> (\<And>x p1. remaining p1 < remaining p \<Longrightarrow> returns (f x p1)) \<Longrightarrow>
   returns (bind m (case_prod f))"
  by (cases m) (auto dest: adv_decreases)

lemma returns_bind0:
  "returns m \<Longrightarrow> (\<And>x p1. returns (f x p1)) \<Longrightarrow> returns (bind m (case_prod f))"
  by (cases m) auto

lemma returns_leaves [simp]:
  "returns (eat ty p)" "returns (identifier p)" "returns (literal p)"
  "returns (super p)" "returns (assignmentOperator p)"
  by (auto simp: eat_def identifier_def literal_def super_def assignmentOperator_def Let_def
      intro!: returns_bind0 split: prod.splits sum.splits)

lemma enough_fuel:
  "(\<forall>p. 16 * remaining p + 13 \<le> n \<longrightarrow> returns (expression n p)) \<and>
   (\<forall>p. 16 * remaining p + 12 \<le> n \<longrightarrow> returns (assignmentExpression n p)) \<and>
   (\<forall>p. 16 * remaining p + 11 \<le> n \<longrightarrow> returns (logicalOrExpression n p)) \<and>
   (\<forall>l p. 16 * remaining p + 1 \<le> n \<longrightarrow> returns (logicalOrExpression_loop n l p)) \<and>
   (\<forall>p. 16 * remaining p + 10 \<le> n \<longrightarrow> returns (logicalAndExpression n p)) \<and>
   (\<forall>l p. 16 * remaining p + 1 \<le> n \<longrightarrow> returns (logicalAndExpression_loop n l p)) \<and>
   (\<forall>p. 16 * remaining p + 9 \<le> n \<longrightarrow> returns (equality n p)) \<and>
   (\<forall>l p. 16 * remaining p + 1 \<le> n \<longrightarrow> returns (equality_loop n l p)) \<and>
   (\<forall>p. 16 * remaining p + 8 \<le> n \<longrightarrow> returns (comparison n p)) \<and>
   (\<forall>l p. 16 * remaining p + 1 \<le> n \<longrightarrow> returns (comparison_loop n l p)) \<and>
   (\<forall>p. 16 * remaining p + 7 \<le> n \<longrightarrow> returns (term n p)) \<and>
   (\<forall>l p. 16 * remaining p + 1 \<le> n \<longrightarrow> returns (term_loop n l p)) \<and>
   (\<forall>p. 16 * remaining p + 6 \<le> n \<longrightarrow> returns (factor n p)) \<and>
   (\<forall>l p. 16 * remaining p + 1 \<le> n \<longrightarrow> returns (factor_loop n l p)) \<and>
   (\<forall>p. 16 * remaining p + 5 \<le> n \<longrightarrow> returns (unary n p)) \<and>
   (\<forall>p. 16 * remaining p + 4 \<le> n \<longrightarrow> returns (leftHandSideExp n p)) \<and>
   (\<forall>p. 16 * remaining p + 3 \<le> n \<longrightarrow> returns (callMemberExp n p)) \<and>
   (\<forall>p. 16 * remaining p + 2 \<le> n \<longrightarrow> returns (memberExp n p)) \<and>
   (\<forall>l p. 16 * remaining p + 1 \<le> n \<longrightarrow> returns (memberExp_loop n l p)) \<and>
   (\<forall>l p. 16 * remaining p + 2 \<le> n \<longrightarrow> returns (callExpression n l p)) \<and>
   (\<forall>p. 16 * remaining p + 1 \<le> n \<longrightarrow> returns (arguments n p)) \<and>
   (\<forall>p. 16 * remaining p + 13 \<le> n \<longrightarrow> returns (argumentList n p)) \<and>
   (\<forall>l p. 16 * remaining p + 1 \<le> n \<longrightarrow> returns (argumentList_loop n l p)) \<and>
   (\<forall>p. 16 * remaining p + 1 \<le> n \<longrightarrow> returns (primary n p))"
proof (induction n)
  case 0
  show ?case by simp
next
  case (Suc n)
  note IH = Suc.IH
  have args: "returns (arguments (Suc n) p)" if "16 * remaining p + 1 \<le> Suc n" for p
    unfolding arguments.simps
  proof (rule returns_bind [of p], goal_cases)
    case 1
    show ?case by (simp add: adv_eat)
  next
    case 2
    show ?case by simp
  next
    case (3 x p1)
    with that show ?case
      by (auto intro!: returns_bind0 simp: IH)
  qed
  show ?case
    by (intro conjI allI impI)
       (auto intro!: returns_bind adv_bind adv0_bind adv_parse adv_eat adv_leaves
             simp: IH args simp del: arguments.simps)
qed

lemma enough_fuel_expression: "16 * remaining p + 13 \<le> n \<Longrightarrow> returns (expression n p)"
  using enough_fuel [of n] by simp

lemma adv_statement: "adv p (statement n p)"
  by (auto simp: statement_def expressionStatement_def intro!: adv_bind adv_parse)

lemma returns_statement: "16 * remaining p + 13 \<le> n \<Longrightarrow> returns (statement n p)"
  by (auto simp: statement_def expressionStatement_def enough_fuel_expression
      intro!: returns_bind0)

lemma statementList_loop_OK:
  "statementList_loop n stop stmts p = OK (r, p') \<Longrightarrow>
     (p' = p \<or> consumes p p') \<and> Type (lookAhead p') = stop"
proof (induction n arbitrary: stmts p)
  case 0
  then show ?case by simp
next
  case (Suc n)
  show ?case
  proof (cases "Type (lookAhead p) = stop")
    case True
    with Suc.prems show ?thesis by simp
  next
    case False
    with Suc.prems obtain s p1 where s: "statement n p = OK (s, p1)"
      and l: "statementList_loop n stop (stmts @ [s]) p1 = OK (r, p')"
      by (auto simp: bind_OK)
    from s adv_statement [of p n] have "consumes p p1"
      by (simp add: adv_def)
    with Suc.IH [OF l] show ?thesis
      by (auto intro: consumes.more)
  qed
qed

lemma returns_statementList_loop:
  "16 * remaining p + 14 \<le> n \<Longrightarrow> returns (statementList_loop n stop stmts p)"
proof (induction n arbitrary: stmts p)
  case 0
  then show ?case by simp
next
  case (Suc n)
  show ?case
  proof (cases "Type (lookAhead p) = stop")
    case True
    then show ?thesis by simp
  next
    case False
    have "returns (bind (statement n p) (\<lambda>(s, p1). statementList_loop n stop (stmts @ [s]) p1))"
    proof (rule returns_bind [of p], goal_cases)
      case 1
      show ?case by (rule adv_statement)
    next
      case 2
      from Suc.prems show ?case by (simp add: returns_statement)
    next
      case (3 x p1)
      with Suc.prems show ?case by (intro Suc.IH) simp
    qed
    with False show ?thesis by simp
  qed
qed

lemma parse_source_first_state:
  "parse_source n src = bind (program n (first_state src)) (\<lambda>(prog, p). OK prog)"
  by (simp add: parse_source_def Parse_def Parser_New_def first_state_def split: prod.splits)

lemma remaining_first_state: "remaining (first_state src) \<le> 2 * length src + 1"
proof -
  obtain tok s' where g: "GetNextToken (Tokenizer_New src) = (tok, s')"
    by (cases "GetNextToken (Tokenizer_New src)")
  from GetNextToken_progress(1) [OF g] have "input s' = src"
    by (simp add: Tokenizer_New_def)
  with g diff_le_self [of "length src" "cursor s'"] show ?thesis
    by (auto simp: first_state_def remaining_def)
qed

lemma parse_source_returns: "returns (parse_source (32 * length src + 30 + k) src)"
proof -
  have "16 * remaining (first_state src) + 14 \<le> 32 * length src + 30 + k"
    using remaining_first_state [of src] by simp
  then have "returns (statementList_loop (32 * length src + 30 + k) EOF [] (first_state src))"
    by (rule returns_statementList_loop)
  then show ?thesis
    by (auto simp: parse_source_first_state program_def statementList_def intro!: returns_bind0)
qed

lemma eat_state:
  assumes "eat ty p = OK (tok, p')"
  shows "Type (lookAhead p) = ty \<and> GetNextToken (scanner p) = (lookAhead p', scanner p')"
  using assms by (auto simp: eat_def Let_def split: if_splits prod.splits)

lemma eat_eof_consistent: "eat ty p = OK (tok, p') \<Longrightarrow> eof_consistent p'"
  using GetNextToken_progress(1) [of "scanner p" "lookAhead p'" "scanner p'"]
  by (auto simp: eof_consistent_def dest!: eat_state)

lemma consumes_eof_consistent: "consumes p p' \<Longrightarrow> eof_consistent p'"
  by (induction rule: consumes.induct) (auto intro: eat_eof_consistent)

lemma eat_semicolon_free:
  assumes "eat ty p = OK (tok, p')" and "ty \<noteq> SEMICOLON" and "semicolon_free p'"
  shows "semicolon_free p"
  unfolding semicolon_free_def
proof
  fix k
  from eat_state [OF assms(1)] have la: "Type (lookAhead p) = ty"
    and g: "GetNextToken (scanner p) = (lookAhead p', scanner p')" by simp_all
  show "SEMICOLON \<notin> set (map Type (lookAhead p # GetNextTokens k (scanner p)))"
  proof (cases k)
    case 0
    with la assms(2) show ?thesis by simp
  next
    case (Suc j)
    from assms(3) have "SEMICOLON \<notin> set (map Type (lookAhead p' # GetNextTokens j (scanner p')))"
      unfolding semicolon_free_def by blast
    with Suc la assms(2) g show ?thesis by simp
  qed
qed

lemma consumes_semicolon_free: "consumes p p' \<Longrightarrow> semicolon_free p' \<Longrightarrow> semicolon_free p"
  by (induction rule: consumes.induct) (auto intro: eat_semicolon_free)

lemma GetNextTokens_at_end:
  "\<not> hasMoreTokens t \<Longrightarrow> set (map Type (GetNextTokens k t)) \<subseteq> {EOF}"
  by (induction k) (auto simp: GetNextToken.simps)

lemma eof_semicolon_free:
  "Type (lookAhead p) = EOF \<Longrightarrow> eof_consistent p \<Longrightarrow> semicolon_free p"
  using GetNextTokens_at_end [of "scanner p"]
  by (fastforce simp: semicolon_free_def eof_consistent_def)

lemma first_state_eof_consistent: "eof_consistent (first_state src)"
proof -
  obtain tok s' where g: "GetNextToken (Tokenizer_New src) = (tok, s')"
    by (cases "GetNextToken (Tokenizer_New src)")
  from GetNextToken_progress(1) [OF g] g show ?thesis
    by (simp add: first_state_def eof_consistent_def)
qed

lemma parsed_source_semicolon_free:
  assumes "parse_source n src = OK prog"
  shows "SEMICOLON \<notin> set (map Type (GetNextTokens m (Tokenizer_New src)))"
proof -
  let ?p0 = "first_state src"
  from assms obtain stmts pe where l: "statementList_loop n EOF [] ?p0 = OK (stmts, pe)"
    by (auto simp: parse_source_first_state program_def statementList_def bind_OK)
  from statementList_loop_OK [OF l]
  have c: "pe = ?p0 \<or> consumes ?p0 pe" and e: "Type (lookAhead pe) = EOF" by simp_all
  from c have "eof_consistent pe"
    using first_state_eof_consistent consumes_eof_consistent by auto
  with e have "semicolon_free pe" by (rule eof_semicolon_free)
  with c have f: "semicolon_free ?p0"
    using consumes_semicolon_free by auto
  show ?thesis
  proof (cases m)
    case 0
    then show ?thesis by simp
  next
    case (Suc k)
    obtain tok s' where g: "GetNextToken (Tokenizer_New src) = (tok, s')"
      by (cases "GetNextToken (Tokenizer_New src)")
    from f have "SEMICOLON \<notin> set (map Type (lookAhead ?p0 # GetNextTokens k (scanner ?p0)))"
      unfolding semicolon_free_def by blast
    with Suc g show ?thesis by (simp add: first_state_def)
  qed
qed

lemma open_call_panics:
  "parse_source (40 + k) ''f('' = Panic (Message ''Unexpected primary expression.'')"
  by (simp add: fuel_add parser_defs tok_defs rx_defs)

lemma primary_message_names_no_token:
  "\<not> mentions (TokenNames T) ''Unexpected primary expression.''"
  by (cases T) (simp_all add: starts_with_def)

section \<open>Reading back a rendering\<close>

text \<open>
  The parser is followed on the text of a rendering. First the tokenizer: which token each
  piece of a rendering gives (\<open>lexes\<close>). Then the grammar, level by level: what each procedure
  returns on the rendering of a node, given what it returns on the renderings of the children
  (\<open>parses\<close>), up to the induction over the tree (\<open>reparses_all\<close>). Last, the trees that the
  parser builds from a source hold tokens of the tokenizer only (\<open>yields_all\<close>), so that a
  pure tree that was parsed from a source is a printable one.
\<close>

lemma eat_after: "Type (lookAhead p) = ty \<Longrightarrow> ty \<noteq> EOF \<Longrightarrow> eat ty p = OK (lookAhead p, after p)"
  by (simp add: eat_def after_def Let_def split: prod.splits)

lemma at_lexes:
  assumes "lexes v T s" and "at p (v @ s)"
  shows "lookAhead p = \<lparr>Type = T, Value = v\<rparr>" and "at (after p) s"
proof -
  from assms(2) obtain i c where d: "drop c i = v @ s"
    and g: "GetNextToken \<lparr>input = i, cursor = c\<rparr> = (lookAhead p, scanner p)"
    by (auto simp: at_def)
  from assms(1) d g have l: "lookAhead p = \<lparr>Type = T, Value = v\<rparr>"
    and sc: "scanner p = \<lparr>input = i, cursor = c + length v\<rparr>"
    by (auto simp: lexes_def)
  show "lookAhead p = \<lparr>Type = T, Value = v\<rparr>" by (rule l)
  have "drop (c + length v) i = s"
    using d by (metis add.commute append_eq_conv_conj drop_drop)
  moreover have "GetNextToken \<lparr>input = i, cursor = c + length v\<rparr> = (lookAhead (after p), scanner (after p))"
    by (simp add: after_def sc split: prod.splits)
  ultimately show "at (after p) s"
    unfolding at_def by blast
qed

lemma at_skips:
  assumes "skips w s" and "at p (w @ s)"
  shows "at p s"
proof -
  from assms(2) obtain i c where d: "drop c i = w @ s"
    and g: "GetNextToken \<lparr>input = i, cursor = c\<rparr> = (lookAhead p, scanner p)"
    by (auto simp: at_def)
  have "drop (c + length w) i = s"
    using d by (metis add.commute append_eq_conv_conj drop_drop)
  moreover from assms(1) d g
  have "GetNextToken \<lparr>input = i, cursor = c + length w\<rparr> = (lookAhead p, scanner p)"
    by (simp add: skips_def)
  ultimately show ?thesis
    unfolding at_def by blast
qed

lemma at_end:
  assumes "at p []"
  shows "Type (lookAhead p) = EOF"
proof -
  from assms obtain i c where d: "drop c i = []"
    and g: "GetNextToken \<lparr>input = i, cursor = c\<rparr> = (lookAhead p, scanner p)"
    by (auto simp: at_def)
  from d have "GetNextToken \<lparr>input = i, cursor = c\<rparr> =
      (\<lparr>Type = EOF, Value = []\<rparr>, \<lparr>input = i, cursor = c\<rparr>)"
    by (simp add: GetNextToken.simps hasMoreTokens_def)
  with g have "lookAhead p = \<lparr>Type = EOF, Value = []\<rparr>" by simp
  then show ?thesis by simp
qed

lemma lexesI:
  assumes "v \<noteq> []"
    and "\<And>t. rules_loop Spec (v @ s) t =
           (\<lparr>Type = T, Value = v\<rparr>, t\<lparr>cursor := cursor t + length v\<rparr>)"
  shows "lexes v T s"
  unfolding lexes_def
proof (intro allI impI)
  fix i c
  assume d: "drop c i = v @ s"
  with assms(1) have "c < length i"
    by (metis append_is_Nil_conv drop_all not_le_imp_less)
  with d assms(2) [of "\<lparr>input = i, cursor = c\<rparr>"]
  show "GetNextToken \<lparr>input = i, cursor = c\<rparr> =
         (\<lparr>Type = T, Value = v\<rparr>, \<lparr>input = i, cursor = c + length v\<rparr>)"
    by (simp add: GetNextToken.simps hasMoreTokens_def)
qed

lemma unit_start_chars:
  assumes "unit_start (c # s)"
  shows "c \<noteq> CHR ''=''" "c \<noteq> CHR ''/''" "c \<noteq> CHR ''*''" "\<not> is_space c"
  using assms by (auto simp: unit_start_def is_word_def is_space_def)

lemmas lex_defs = Spec_def match_def Let_def rx_plus_def rx_line_comment_def rx_block_comment_def
  rx_lit_def rx_class_def rx_class_eq_def rx_relational_def rx_keyword_def rx_quoted_def
  starts_with_def

lemma lexes_punct:
  "lexes ''('' LPAREN s" "lexes '')'' RPAREN s" "lexes ''['' LBRACKET s" "lexes '']'' RBRACKET s"
  "lexes '','' COMMA s" "lexes ''.'' DOT s"
  by (rule lexesI; simp add: lex_defs is_space_def)+

lemma lexes_op2:
  "lexes ''<='' RELATIONAL_OPERATOR s" "lexes ''>='' RELATIONAL_OPERATOR s"
  "lexes ''=='' EQUALITY_OPERATOR s" "lexes ''!='' EQUALITY_OPERATOR s"
  "lexes ''&&'' LOGICAL_AND s" "lexes ''||'' LOGICAL_OR s"
  by (rule lexesI; simp add: lex_defs is_space_def)+

lemma lexes_op1:
  assumes "unit_start s"
  shows "lexes ''<'' RELATIONAL_OPERATOR s" "lexes ''>'' RELATIONAL_OPERATOR s"
    "lexes ''!'' LOGICAL_NOT s" "lexes ''+'' ADDITIVE_OPERATOR s" "lexes ''-'' ADDITIVE_OPERATOR s"
    "lexes ''*'' MULTIPLICATIVE_OPERATOR s" "lexes ''/'' MULTIPLICATIVE_OPERATOR s"
proof -
  from assms obtain c r where s: "s = c # r"
    by (cases s) (auto simp: unit_start_def)
  note u = unit_start_chars [OF assms [unfolded s]]
  show "lexes ''<'' RELATIONAL_OPERATOR s" "lexes ''>'' RELATIONAL_OPERATOR s"
    "lexes ''!'' LOGICAL_NOT s" "lexes ''+'' ADDITIVE_OPERATOR s" "lexes ''-'' ADDITIVE_OPERATOR s"
    "lexes ''*'' MULTIPLICATIVE_OPERATOR s" "lexes ''/'' MULTIPLICATIVE_OPERATOR s"
    unfolding s by (rule lexesI; simp add: lex_defs is_space_def u)+
qed

lemma quoted_cases:
  assumes "quoted v"
  obtains body where "DQ \<notin> set body" and "v = DQ # body @ [DQ]"
    | body where "SQ \<notin> set body" and "v = SQ # body @ [SQ]"
proof -
  from assms obtain q r where v: "v = q # r" and q: "q = DQ \<or> q = SQ" and r: "r \<noteq> []"
    and l: "last r = q" and n: "q \<notin> set (butlast r)"
    by (cases v) (auto simp: quoted_def)
  from r l have "r = butlast r @ [q]" by (metis append_butlast_last_id)
  with v q n that show ?thesis by metis
qed

lemma rx_quoted_prefix: "q \<notin> set b \<Longrightarrow> rx_quoted q (q # b @ q # rest) = q # b @ [q]"
  by (simp add: rx_quoted_def starts_with_def takeWhile_upto Let_def)

lemma rx_quoted_quoted:
  "q = DQ \<or> q = SQ \<Longrightarrow> rx_quoted q inp \<noteq> [] \<Longrightarrow> quoted (rx_quoted q inp)"
  by (auto simp: rx_quoted_def quoted_def Let_def butlast_append
           split: list.splits if_splits dest: set_takeWhileD)

lemmas string_start_defs = Spec_def match_def Let_def rx_plus_def rx_line_comment_def
  rx_block_comment_def rx_lit_def rx_class_def rx_class_eq_def rx_relational_def rx_keyword_def
  starts_with_def is_space_def is_digit_def is_word_def rx_quoted_prefix rx_quoted_other

lemma lexes_string:
  assumes "quoted v"
  shows "lexes v STRING s"
  using assms
proof (cases rule: quoted_cases)
  case (1 body)
  show ?thesis
    unfolding 1(2) by (rule lexesI) (simp_all add: string_start_defs 1(1) split: list.splits)
next
  case (2 body)
  show ?thesis
    unfolding 2(2) by (rule lexesI) (simp_all add: string_start_defs 2(1) split: list.splits)
qed

lemma lexes_keyword:
  assumes "nw s"
  shows "lexes ''true'' TRUE s" "lexes ''false'' FALSE s" "lexes ''null'' NULL s"
    "lexes ''this'' THIS s" "lexes ''super'' SUPER s"
  using assms
  by - (rule lexesI; simp add: lex_defs is_space_def nw_def split: list.splits)+

lemma takeWhile_all: "list_all P v \<Longrightarrow> (case s of [] \<Rightarrow> True | c # _ \<Rightarrow> \<not> P c) \<Longrightarrow> takeWhile P (v @ s) = v"
  by (induction v) (auto split: list.splits)

lemma word_chars:
  assumes "is_word c"
  shows "\<not> is_space c" "c \<notin> set ''{}()[],;.<>!=&|+-*/''" "c \<noteq> DQ" "c \<noteq> SQ"
  using assms by (auto simp: is_word_def is_space_def)

lemma rx_keyword_name:
  assumes "list_all is_word v" and "nw s" and "v \<noteq> kw" and "list_all is_word kw"
  shows "rx_keyword kw (v @ s) = []"
proof (rule ccontr)
  assume "rx_keyword kw (v @ s) \<noteq> []"
  then have st: "take (length kw) (v @ s) = kw"
    and nx: "(case drop (length kw) (v @ s) of [] \<Rightarrow> True | c # _ \<Rightarrow> \<not> is_word c)"
    by (auto simp: rx_keyword_def starts_with_def split: if_splits)
  consider "length kw < length v" | "length v = length kw" | "length v < length kw"
    by linarith
  then show False
  proof cases
    case 1
    then have "drop (length kw) (v @ s) = v ! length kw # drop (Suc (length kw)) v @ s"
      by (simp add: Cons_nth_drop_Suc)
    moreover from 1 assms(1) have "is_word (v ! length kw)"
      by (simp add: list_all_length)
    ultimately show False using nx by simp
  next
    case 2
    with st assms(3) show False by simp
  next
    case 3
    with st have kw: "kw = v @ take (length kw - length v) s" by simp
    show False
    proof (cases s)
      case Nil
      with kw 3 show False by simp
    next
      case (Cons c r)
      with kw 3 have "kw = v @ c # take (length kw - length v - 1) r"
        by (cases "length kw - length v") auto
      then have "c \<in> set kw"
        by (metis in_set_conv_decomp)
      with assms(4) have "is_word c" by (simp add: list_all_iff)
      with Cons assms(2) show False by (simp add: nw_def)
    qed
  qed
qed

lemma takeWhile_hd: "\<not> P c \<Longrightarrow> takeWhile P (c # r) = []"
  by simp

lemma rules_loop_last_word:
  assumes v: "v = c # r" and c: "is_word c" "\<not> is_digit c"
    and kw: "\<And>kw. kw \<in> set keyword_list \<Longrightarrow> rx_keyword kw (v @ s) = []"
    and w: "rx_plus is_word (v @ s) = v"
  shows "rules_loop Spec (v @ s) t = (\<lparr>Type = IDENTIFIER, Value = v\<rparr>, t\<lparr>cursor := cursor t + length v\<rparr>)"
proof -
  note wc = word_chars [OF c(1)]
  have k: "rx_keyword ''let'' (v @ s) = []" "rx_keyword ''if'' (v @ s) = []"
    "rx_keyword ''else'' (v @ s) = []" "rx_keyword ''true'' (v @ s) = []"
    "rx_keyword ''false'' (v @ s) = []" "rx_keyword ''null'' (v @ s) = []"
    "rx_keyword ''def'' (v @ s) = []" "rx_keyword ''return'' (v @ s) = []"
    "rx_keyword ''class'' (v @ s) = []" "rx_keyword ''this'' (v @ s) = []"
    "rx_keyword ''extends'' (v @ s) = []" "rx_keyword ''super'' (v @ s) = []"
    "rx_keyword ''new'' (v @ s) = []" "rx_keyword ''while'' (v @ s) = []"
    "rx_keyword ''do'' (v @ s) = []" "rx_keyword ''for'' (v @ s) = []"
    by (rule kw, simp add: keyword_list_def)+
  have o: "rx_plus is_space (v @ s) = []" "rx_line_comment (v @ s) = []"
    "rx_block_comment (v @ s) = []" "rx_relational (v @ s) = []"
    "rx_class_eq ''!='' (v @ s) = []" "rx_class_eq ''+-*/'' (v @ s) = []"
    "rx_class ''+-'' (v @ s) = []" "rx_class ''*/'' (v @ s) = []"
    "rx_quoted DQ (v @ s) = []" "rx_quoted SQ (v @ s) = []"
    "rx_plus is_digit (v @ s) = []"
    "rx_lit ''{'' (v @ s) = []" "rx_lit ''}'' (v @ s) = []" "rx_lit ''('' (v @ s) = []"
    "rx_lit '')'' (v @ s) = []" "rx_lit ''['' (v @ s) = []" "rx_lit '']'' (v @ s) = []"
    "rx_lit '','' (v @ s) = []" "rx_lit '';'' (v @ s) = []" "rx_lit ''.'' (v @ s) = []"
    "rx_lit ''&&'' (v @ s) = []" "rx_lit ''||'' (v @ s) = []" "rx_lit ''!'' (v @ s) = []"
    "rx_lit ''='' (v @ s) = []"
    using wc c(2) by (auto simp: v lex_defs split: list.splits)
  from v have ne: "v \<noteq> []" by simp
  show ?thesis
    by (simp add: Spec_def match_def Let_def k o w ne)
qed

lemma lexes_name:
  assumes "valid_name v" and "nw s"
  shows "lexes v IDENTIFIER s"
proof (rule lexesI)
  from assms(1) show "v \<noteq> []" by (simp add: valid_name_def)
next
  fix t
  from assms(1) obtain c r where v: "v = c # r" and c: "is_word c" "\<not> is_digit c"
    by (cases v) (auto simp: valid_name_def)
  have aw: "list_all is_word v" using assms(1) by (simp add: valid_name_def)
  have kw: "rx_keyword kw (v @ s) = []" if "kw \<in> set keyword_list" for kw
  proof (rule rx_keyword_name [OF aw assms(2)])
    from that assms(1) show "v \<noteq> kw" by (auto simp: valid_name_def)
    from that show "list_all is_word kw"
      by (auto simp: keyword_list_def is_word_def)
  qed
  have w: "rx_plus is_word (v @ s) = v"
    unfolding rx_plus_def using aw assms(2)
    by (intro takeWhile_all) (simp_all add: nw_def)
  show "rules_loop Spec (v @ s) t =
          (\<lparr>Type = IDENTIFIER, Value = v\<rparr>, t\<lparr>cursor := cursor t + length v\<rparr>)"
    by (rule rules_loop_last_word [OF v c kw w])
qed

lemma digit_chars:
  assumes "is_digit c"
  shows "is_word c" "\<not> is_space c" "c \<notin> set ''{}()[],;.<>!=&|+-*/''" "c \<noteq> DQ" "c \<noteq> SQ"
    "c \<notin> set ''liefndrctsw''"
  using assms by (auto simp: is_word_def is_space_def is_digit_def)

lemma lexes_digits:
  assumes "ds \<noteq> []" and "list_all is_digit ds" and "nw s"
  shows "lexes ds NUMBER s"
proof (rule lexesI)
  show "ds \<noteq> []" by (rule assms(1))
next
  fix t
  from assms(1,2) obtain c r where v: "ds = c # r" and c: "is_digit c"
    by (cases ds) auto
  note dc = digit_chars [OF c]
  have k: "rx_keyword ''let'' (ds @ s) = []" "rx_keyword ''if'' (ds @ s) = []"
    "rx_keyword ''else'' (ds @ s) = []" "rx_keyword ''true'' (ds @ s) = []"
    "rx_keyword ''false'' (ds @ s) = []" "rx_keyword ''null'' (ds @ s) = []"
    "rx_keyword ''def'' (ds @ s) = []" "rx_keyword ''return'' (ds @ s) = []"
    "rx_keyword ''class'' (ds @ s) = []" "rx_keyword ''this'' (ds @ s) = []"
    "rx_keyword ''extends'' (ds @ s) = []" "rx_keyword ''super'' (ds @ s) = []"
    "rx_keyword ''new'' (ds @ s) = []" "rx_keyword ''while'' (ds @ s) = []"
    "rx_keyword ''do'' (ds @ s) = []" "rx_keyword ''for'' (ds @ s) = []"
    using dc(6) by (auto simp: v rx_keyword_def starts_with_def)
  have o: "rx_plus is_space (ds @ s) = []" "rx_line_comment (ds @ s) = []"
    "rx_block_comment (ds @ s) = []" "rx_relational (ds @ s) = []"
    "rx_class_eq ''!='' (ds @ s) = []" "rx_class_eq ''+-*/'' (ds @ s) = []"
    "rx_class ''+-'' (ds @ s) = []" "rx_class ''*/'' (ds @ s) = []"
    "rx_lit ''{'' (ds @ s) = []" "rx_lit ''}'' (ds @ s) = []" "rx_lit ''('' (ds @ s) = []"
    "rx_lit '')'' (ds @ s) = []" "rx_lit ''['' (ds @ s) = []" "rx_lit '']'' (ds @ s) = []"
    "rx_lit '','' (ds @ s) = []" "rx_lit '';'' (ds @ s) = []" "rx_lit ''.'' (ds @ s) = []"
    "rx_lit ''&&'' (ds @ s) = []" "rx_lit ''||'' (ds @ s) = []" "rx_lit ''!'' (ds @ s) = []"
    "rx_lit ''='' (ds @ s) = []"
    using dc(2,3) by (auto simp: v lex_defs split: list.splits)
  have "(case s of [] \<Rightarrow> True | c # _ \<Rightarrow> \<not> is_digit c)"
    using assms(3) by (auto simp: nw_def dest: digit_chars(1) split: list.splits)
  then have w: "rx_plus is_digit (ds @ s) = ds"
    unfolding rx_plus_def using assms(2) by (intro takeWhile_all)
  show "rules_loop Spec (ds @ s) t =
          (\<lparr>Type = NUMBER, Value = ds\<rparr>, t\<lparr>cursor := cursor t + length ds\<rparr>)"
    by (simp add: Spec_def match_def Let_def k o w assms(1))
qed

lemma skips_space:
  assumes "unit_start s"
  shows "skips '' '' s"
  unfolding skips_def
proof (intro allI impI)
  fix i c
  assume d: "drop c i = '' '' @ s"
  then have "c < length i"
    by (metis append_is_Nil_conv drop_all not_le_imp_less not_Cons_self2)
  moreover from assms obtain x r where s: "s = x # r" and "\<not> is_space x"
    by (cases s) (auto simp: unit_start_def is_space_def is_word_def)
  ultimately show "GetNextToken \<lparr>input = i, cursor = c\<rparr> =
      GetNextToken \<lparr>input = i, cursor = c + length '' ''\<rparr>"
    using d by (simp add: GetNextToken.simps [of "\<lparr>input = i, cursor = c\<rparr>"] hasMoreTokens_def
        Spec_def match_def rx_plus_def is_space_def)
qed

lemma FormatUint_digits: "FormatUint n \<noteq> [] \<and> list_all is_digit (FormatUint n)"
proof (induction n rule: FormatUint.induct)
  case (1 n)
  have d: "is_digit (digit_char k)" if "k < 10" for k
  proof -
    from that have "k \<in> {0, 1, 2, 3, 4, 5, 6, 7, 8, 9}" by auto
    then show ?thesis by (auto simp: digit_char_def is_digit_def)
  qed
  show ?case
  proof (cases "n < 10")
    case True
    then show ?thesis by (simp add: FormatUint.simps [of n] d)
  next
    case False
    with 1 show ?thesis by (simp add: FormatUint.simps [of n] d)
  qed
qed

lemma digit_val_digit_char: "k < 10 \<Longrightarrow> digit_val (digit_char k) = Some k"
proof -
  assume "k < 10"
  then have "k \<in> {0, 1, 2, 3, 4, 5, 6, 7, 8, 9}" by auto
  then show ?thesis by (auto simp: digit_char_def digit_val_def is_digit_def)
qed

lemma ParseUint_loop_snoc:
  "ParseUint_loop b a (xs @ [c]) =
     (case ParseUint_loop b a xs of Inl e \<Rightarrow> Inl e | Inr m \<Rightarrow> ParseUint_loop b m [c])"
  by (induction xs arbitrary: a) (auto split: option.splits)

lemma ParseUint_loop_FormatUint:
  "n \<le> maxUint64 \<Longrightarrow> ParseUint_loop 10 0 (FormatUint n) = Inr n"
proof (induction n rule: FormatUint.induct)
  case (1 n)
  show ?case
  proof (cases "n < 10")
    case True
    with 1 show ?thesis
      by (simp add: FormatUint.simps [of n] digit_val_digit_char maxUint64_def)
  next
    case False
    from 1 False have "ParseUint_loop 10 0 (FormatUint (n div 10)) = Inr (n div 10)"
      by simp
    moreover have "n div 10 * 10 + n mod 10 = n" by simp
    moreover from "1.prems" have "\<not> maxUint64 div 10 + 1 \<le> n div 10"
      by (simp add: maxUint64_def)
    ultimately show ?thesis
      using False "1.prems"
      by (simp add: FormatUint.simps [of n] ParseUint_loop_snoc digit_val_digit_char)
  qed
qed

lemma hd_FormatUint: "0 < n \<Longrightarrow> hd (FormatUint n) \<noteq> CHR ''0''"
proof (induction n rule: FormatUint.induct)
  case (1 n)
  show ?case
  proof (cases "n < 10")
    case True
    with "1.prems" have "n \<in> {1, 2, 3, 4, 5, 6, 7, 8, 9}" by auto
    then show ?thesis by (auto simp: FormatUint.simps [of n] digit_char_def)
  next
    case False
    with 1 FormatUint_digits [of "n div 10"] show ?thesis
      by (simp add: FormatUint.simps [of n])
  qed
qed

lemma ParseInt_FormatInt:
  assumes "0 \<le> v" and "v < 9223372036854775808"
  shows "ParseInt (FormatInt v) = Inr v"
proof (cases "v = 0")
  case True
  then show ?thesis
    by (simp add: FormatInt_def FormatUint.simps [of 0] digit_char_def ParseInt_def)
next
  case False
  with assms have pos: "0 < nat v" and le: "nat v \<le> maxUint64" and lt: "nat v < 9223372036854775808"
    by (simp_all add: maxUint64_def)
  from assms have f: "FormatInt v = FormatUint (nat v)" by (simp add: FormatInt_def)
  from FormatUint_digits [of "nat v"] hd_FormatUint [OF pos] ParseUint_loop_FormatUint [OF le] lt assms(1)
  show ?thesis by (simp add: f ParseInt_def)
qed

lemma parsesD: "parses f K p x p' \<Longrightarrow> K \<le> n \<Longrightarrow> f n p = OK (x, p')"
  by (simp add: parses_def)

lemma parses_mono: "parses f K p x p' \<Longrightarrow> K \<le> K' \<Longrightarrow> parses f K' p x p'"
  by (simp add: parses_def)

lemma next_is_lexes: "lexes v T s \<Longrightarrow> next_is (v @ s) T"
  by (auto simp: next_is_def dest: at_lexes(1))

lemma next_is_end: "next_is [] EOF"
  by (simp add: next_is_def at_end)

lemma next_isD: "next_is s T \<Longrightarrow> at p s \<Longrightarrow> Type (lookAhead p) = T"
  by (simp add: next_is_def)

lemma fuel_split:
  "1 \<le> n \<Longrightarrow> \<exists>m. n = Suc m"
  "K + 1 \<le> n \<Longrightarrow> \<exists>m. n = Suc m \<and> K \<le> m"
  "K + 2 \<le> n \<Longrightarrow> \<exists>m. n = Suc (Suc m) \<and> K \<le> m"
  "K + 3 \<le> n \<Longrightarrow> \<exists>m. n = Suc (Suc (Suc m)) \<and> K \<le> m"
  by presburger+

lemma loop_stop:
  "0 < m \<Longrightarrow> Type (lookAhead p) \<noteq> MULTIPLICATIVE_OPERATOR \<Longrightarrow> factor_loop m l p = OK (l, p)"
  "0 < m \<Longrightarrow> Type (lookAhead p) \<noteq> ADDITIVE_OPERATOR \<Longrightarrow> term_loop m l p = OK (l, p)"
  "0 < m \<Longrightarrow> Type (lookAhead p) \<noteq> RELATIONAL_OPERATOR \<Longrightarrow> comparison_loop m l p = OK (l, p)"
  "0 < m \<Longrightarrow> Type (lookAhead p) \<noteq> EQUALITY_OPERATOR \<Longrightarrow> equality_loop m l p = OK (l, p)"
  "0 < m \<Longrightarrow> Type (lookAhead p) \<noteq> LOGICAL_AND \<Longrightarrow> logicalAndExpression_loop m l p = OK (l, p)"
  "0 < m \<Longrightarrow> Type (lookAhead p) \<noteq> LOGICAL_OR \<Longrightarrow> logicalOrExpression_loop m l p = OK (l, p)"
  "0 < m \<Longrightarrow> Type (lookAhead p) \<noteq> DOT \<Longrightarrow> Type (lookAhead p) \<noteq> LBRACKET \<Longrightarrow>
     memberExp_loop m l p = OK (l, p)"
  "0 < m \<Longrightarrow> Type (lookAhead p) \<noteq> COMMA \<Longrightarrow> argumentList_loop m ls p = OK (ls, p)"
  by (cases m; simp)+

lemma climb_factor:
  assumes "parses unary K p t p'" and "Type (lookAhead p') \<noteq> MULTIPLICATIVE_OPERATOR"
  shows "parses factor (K + 2) p t p'"
  unfolding parses_def
proof (intro allI impI)
  fix n assume "K + 2 \<le> n"
  then obtain m where n: "n = Suc m" and m: "K + 1 \<le> m"
    using fuel_split(2) [of "K + 1" n] by auto
  from m have u: "unary m p = OK (t, p')"
    using assms(1) by (simp add: parses_def)
  from m assms(2) have l: "factor_loop m t p' = OK (t, p')"
    by (simp add: loop_stop)
  show "factor n p = OK (t, p')"
    by (simp add: n u l)
qed

lemma climb_term:
  assumes "parses factor K p t p'" and "Type (lookAhead p') \<noteq> ADDITIVE_OPERATOR"
  shows "parses term (K + 2) p t p'"
  unfolding parses_def
proof (intro allI impI)
  fix n assume "K + 2 \<le> n"
  then obtain m where n: "n = Suc m" and m: "K + 1 \<le> m"
    using fuel_split(2) [of "K + 1" n] by auto
  from m have u: "factor m p = OK (t, p')"
    using assms(1) by (simp add: parses_def)
  from m assms(2) have l: "term_loop m t p' = OK (t, p')"
    by (simp add: loop_stop)
  show "term n p = OK (t, p')"
    by (simp add: n u l)
qed

lemma climb_comparison:
  assumes "parses term K p t p'" and "Type (lookAhead p') \<noteq> RELATIONAL_OPERATOR"
  shows "parses comparison (K + 2) p t p'"
  unfolding parses_def
proof (intro allI impI)
  fix n assume "K + 2 \<le> n"
  then obtain m where n: "n = Suc m" and m: "K + 1 \<le> m"
    using fuel_split(2) [of "K + 1" n] by auto
  from m have u: "term m p = OK (t, p')"
    using assms(1) by (simp add: parses_def)
  from m assms(2) have l: "comparison_loop m t p' = OK (t, p')"
    by (simp add: loop_stop)
  show "comparison n p = OK (t, p')"
    by (simp add: n u l)
qed

lemma climb_equality:
  assumes "parses comparison K p t p'" and "Type (lookAhead p') \<noteq> EQUALITY_OPERATOR"
  shows "parses equality (K + 2) p t p'"
  unfolding parses_def
proof (intro allI impI)
  fix n assume "K + 2 \<le> n"
  then obtain m where n: "n = Suc m" and m: "K + 1 \<le> m"
    using fuel_split(2) [of "K + 1" n] by auto
  from m have u: "comparison m p = OK (t, p')"
    using assms(1) by (simp add: parses_def)
  from m assms(2) have l: "equality_loop m t p' = OK (t, p')"
    by (simp add: loop_stop)
  show "equality n p = OK (t, p')"
    by (simp add: n u l)
qed

lemma climb_logicalAnd:
  assumes "parses equality K p t p'" and "Type (lookAhead p') \<noteq> LOGICAL_AND"
  shows "parses logicalAndExpression (K + 2) p t p'"
  unfolding parses_def
proof (intro allI impI)
  fix n assume "K + 2 \<le> n"
  then obtain m where n: "n = Suc m" and m: "K + 1 \<le> m"
    using fuel_split(2) [of "K + 1" n] by auto
  from m have u: "equality m p = OK (t, p')"
    using assms(1) by (simp add: parses_def)
  from m assms(2) have l: "logicalAndExpression_loop m t p' = OK (t, p')"
    by (simp add: loop_stop)
  show "logicalAndExpression n p = OK (t, p')"
    by (simp add: n u l)
qed

lemma climb_logicalOr:
  assumes "parses logicalAndExpression K p t p'" and "Type (lookAhead p') \<noteq> LOGICAL_OR"
  shows "parses logicalOrExpression (K + 2) p t p'"
  unfolding parses_def
proof (intro allI impI)
  fix n assume "K + 2 \<le> n"
  then obtain m where n: "n = Suc m" and m: "K + 1 \<le> m"
    using fuel_split(2) [of "K + 1" n] by auto
  from m have u: "logicalAndExpression m p = OK (t, p')"
    using assms(1) by (simp add: parses_def)
  from m assms(2) have l: "logicalOrExpression_loop m t p' = OK (t, p')"
    by (simp add: loop_stop)
  show "logicalOrExpression n p = OK (t, p')"
    by (simp add: n u l)
qed

lemma climb_assignment:
  assumes "parses logicalOrExpression K p t p'"
    and "\<not> isAssignmentOperator (Type (lookAhead p'))"
  shows "parses assignmentExpression (K + 1) p t p'" "parses expression (K + 2) p t p'"
proof -
  show a: "parses assignmentExpression (K + 1) p t p'"
    unfolding parses_def
  proof (intro allI impI)
    fix n assume "K + 1 \<le> n"
    then obtain m where n: "n = Suc m" and m: "K \<le> m"
      using fuel_split(2) by blast
    from m have "logicalOrExpression m p = OK (t, p')"
      using assms(1) by (simp add: parses_def)
    with assms(2) show "assignmentExpression n p = OK (t, p')"
      by (simp add: n)
  qed
  show "parses expression (K + 2) p t p'"
    unfolding parses_def
  proof (intro allI impI)
    fix n assume "K + 2 \<le> n"
    then obtain m where n: "n = Suc m" and m: "K + 1 \<le> m"
      using fuel_split(2) [of "K + 1" n] by auto
    with a show "expression n p = OK (t, p')"
      by (simp add: n parses_def)
  qed
qed

lemma climb_all:
  assumes "parses unary K p t p'" and "stops (Type (lookAhead p'))"
  shows "parses assignmentExpression (K + 13) p t p'" "parses expression (K + 14) p t p'"
proof -
  from assms(2) have T: "Type (lookAhead p') \<noteq> MULTIPLICATIVE_OPERATOR"
    "Type (lookAhead p') \<noteq> ADDITIVE_OPERATOR" "Type (lookAhead p') \<noteq> RELATIONAL_OPERATOR"
    "Type (lookAhead p') \<noteq> EQUALITY_OPERATOR" "Type (lookAhead p') \<noteq> LOGICAL_AND"
    "Type (lookAhead p') \<noteq> LOGICAL_OR" "\<not> isAssignmentOperator (Type (lookAhead p'))"
    by (auto simp: stops_def isAssignmentOperator_def)
  have "parses logicalOrExpression (K + 2 + 2 + 2 + 2 + 2 + 2) p t p'"
    by (intro climb_logicalOr climb_logicalAnd climb_equality climb_comparison climb_term
        climb_factor assms(1) T)
  from climb_assignment [OF this T(7)]
  show "parses assignmentExpression (K + 13) p t p'" "parses expression (K + 14) p t p'"
    by (simp_all add: parses_def)
qed

lemma at_eat:
  assumes "lexes v T s" and "at p (v @ s)" and "T \<noteq> EOF"
  shows "eat T p = OK (\<lparr>Type = T, Value = v\<rparr>, after p)"
  using at_lexes(1) [OF assms(1,2)] assms(3) eat_after [of p T] by simp

lemma bin_factor:
  assumes "parses unary K1 p l p1" and "at p1 (op @ s1)" and "lexes op MULTIPLICATIVE_OPERATOR s1"
    and "parses unary K2 (after p1) r p2" and "Type (lookAhead p2) \<noteq> MULTIPLICATIVE_OPERATOR"
  shows "parses factor (max K1 K2 + 3) p (BinaryExpression op l r) p2"
  unfolding parses_def
proof (intro allI impI)
  fix n assume "max K1 K2 + 3 \<le> n"
  then obtain m where n: "n = Suc (Suc m)" and m: "max K1 K2 + 1 \<le> m"
    using fuel_split(3) [of "max K1 K2 + 1" n] by auto
  have la: "lookAhead p1 = \<lparr>Type = MULTIPLICATIVE_OPERATOR, Value = op\<rparr>"
    by (rule at_lexes(1) [OF assms(3,2)])
  have e: "eat MULTIPLICATIVE_OPERATOR p1 = OK (\<lparr>Type = MULTIPLICATIVE_OPERATOR, Value = op\<rparr>, after p1)"
    by (rule at_eat [OF assms(3,2)]) simp
  have u1: "unary (Suc m) p = OK (l, p1)"
    using m by (intro parsesD [OF assms(1)]) simp
  have u2: "unary m (after p1) = OK (r, p2)"
    using m by (intro parsesD [OF assms(4)]) simp
  have l3: "factor_loop m (BinaryExpression op l r) p2 = OK (BinaryExpression op l r, p2)"
    using m assms(5) by (simp add: loop_stop)
  have "factor_loop (Suc m) l p1 = OK (BinaryExpression op l r, p2)"
    by (simp add: la e u2 l3)
  then show "factor n p = OK (BinaryExpression op l r, p2)"
    unfolding n factor.simps u1 by simp
qed

lemma bin_term:
  assumes "parses factor K1 p l p1" and "at p1 (op @ s1)" and "lexes op ADDITIVE_OPERATOR s1"
    and "parses factor K2 (after p1) r p2" and "Type (lookAhead p2) \<noteq> ADDITIVE_OPERATOR"
  shows "parses term (max K1 K2 + 3) p (BinaryExpression op l r) p2"
  unfolding parses_def
proof (intro allI impI)
  fix n assume "max K1 K2 + 3 \<le> n"
  then obtain m where n: "n = Suc (Suc m)" and m: "max K1 K2 + 1 \<le> m"
    using fuel_split(3) [of "max K1 K2 + 1" n] by auto
  have la: "lookAhead p1 = \<lparr>Type = ADDITIVE_OPERATOR, Value = op\<rparr>"
    by (rule at_lexes(1) [OF assms(3,2)])
  have e: "eat ADDITIVE_OPERATOR p1 = OK (\<lparr>Type = ADDITIVE_OPERATOR, Value = op\<rparr>, after p1)"
    by (rule at_eat [OF assms(3,2)]) simp
  have u1: "factor (Suc m) p = OK (l, p1)"
    using m by (intro parsesD [OF assms(1)]) simp
  have u2: "factor m (after p1) = OK (r, p2)"
    using m by (intro parsesD [OF assms(4)]) simp
  have l3: "term_loop m (BinaryExpression op l r) p2 = OK (BinaryExpression op l r, p2)"
    using m assms(5) by (simp add: loop_stop)
  have "term_loop (Suc m) l p1 = OK (BinaryExpression op l r, p2)"
    by (simp add: la e u2 l3)
  then show "term n p = OK (BinaryExpression op l r, p2)"
    unfolding n "term.simps" u1 by simp
qed

lemma bin_comparison:
  assumes "parses term K1 p l p1" and "at p1 (op @ s1)" and "lexes op RELATIONAL_OPERATOR s1"
    and "parses term K2 (after p1) r p2" and "Type (lookAhead p2) \<noteq> RELATIONAL_OPERATOR"
  shows "parses comparison (max K1 K2 + 3) p (BinaryExpression op l r) p2"
  unfolding parses_def
proof (intro allI impI)
  fix n assume "max K1 K2 + 3 \<le> n"
  then obtain m where n: "n = Suc (Suc m)" and m: "max K1 K2 + 1 \<le> m"
    using fuel_split(3) [of "max K1 K2 + 1" n] by auto
  have la: "lookAhead p1 = \<lparr>Type = RELATIONAL_OPERATOR, Value = op\<rparr>"
    by (rule at_lexes(1) [OF assms(3,2)])
  have e: "eat RELATIONAL_OPERATOR p1 = OK (\<lparr>Type = RELATIONAL_OPERATOR, Value = op\<rparr>, after p1)"
    by (rule at_eat [OF assms(3,2)]) simp
  have u1: "term (Suc m) p = OK (l, p1)"
    using m by (intro parsesD [OF assms(1)]) simp
  have u2: "term m (after p1) = OK (r, p2)"
    using m by (intro parsesD [OF assms(4)]) simp
  have l3: "comparison_loop m (BinaryExpression op l r) p2 = OK (BinaryExpression op l r, p2)"
    using m assms(5) by (simp add: loop_stop)
  have "comparison_loop (Suc m) l p1 = OK (BinaryExpression op l r, p2)"
    by (simp add: la e u2 l3)
  then show "comparison n p = OK (BinaryExpression op l r, p2)"
    unfolding n comparison.simps u1 by simp
qed

lemma bin_equality:
  assumes "parses comparison K1 p l p1" and "at p1 (op @ s1)" and "lexes op EQUALITY_OPERATOR s1"
    and "parses comparison K2 (after p1) r p2" and "Type (lookAhead p2) \<noteq> EQUALITY_OPERATOR"
  shows "parses equality (max K1 K2 + 3) p (LogicalExpression op l r) p2"
  unfolding parses_def
proof (intro allI impI)
  fix n assume "max K1 K2 + 3 \<le> n"
  then obtain m where n: "n = Suc (Suc m)" and m: "max K1 K2 + 1 \<le> m"
    using fuel_split(3) [of "max K1 K2 + 1" n] by auto
  have la: "lookAhead p1 = \<lparr>Type = EQUALITY_OPERATOR, Value = op\<rparr>"
    by (rule at_lexes(1) [OF assms(3,2)])
  have e: "eat EQUALITY_OPERATOR p1 = OK (\<lparr>Type = EQUALITY_OPERATOR, Value = op\<rparr>, after p1)"
    by (rule at_eat [OF assms(3,2)]) simp
  have u1: "comparison (Suc m) p = OK (l, p1)"
    using m by (intro parsesD [OF assms(1)]) simp
  have u2: "comparison m (after p1) = OK (r, p2)"
    using m by (intro parsesD [OF assms(4)]) simp
  have l3: "equality_loop m (LogicalExpression op l r) p2 = OK (LogicalExpression op l r, p2)"
    using m assms(5) by (simp add: loop_stop)
  have "equality_loop (Suc m) l p1 = OK (LogicalExpression op l r, p2)"
    by (simp add: la e u2 l3)
  then show "equality n p = OK (LogicalExpression op l r, p2)"
    unfolding n equality.simps u1 by simp
qed

lemma bin_logicalAnd:
  assumes "parses equality K1 p l p1" and "at p1 (op @ s1)" and "lexes op LOGICAL_AND s1"
    and "parses equality K2 (after p1) r p2" and "Type (lookAhead p2) \<noteq> LOGICAL_AND"
  shows "parses logicalAndExpression (max K1 K2 + 3) p (LogicalExpression op l r) p2"
  unfolding parses_def
proof (intro allI impI)
  fix n assume "max K1 K2 + 3 \<le> n"
  then obtain m where n: "n = Suc (Suc m)" and m: "max K1 K2 + 1 \<le> m"
    using fuel_split(3) [of "max K1 K2 + 1" n] by auto
  have la: "lookAhead p1 = \<lparr>Type = LOGICAL_AND, Value = op\<rparr>"
    by (rule at_lexes(1) [OF assms(3,2)])
  have e: "eat LOGICAL_AND p1 = OK (\<lparr>Type = LOGICAL_AND, Value = op\<rparr>, after p1)"
    by (rule at_eat [OF assms(3,2)]) simp
  have u1: "equality (Suc m) p = OK (l, p1)"
    using m by (intro parsesD [OF assms(1)]) simp
  have u2: "equality m (after p1) = OK (r, p2)"
    using m by (intro parsesD [OF assms(4)]) simp
  have l3: "logicalAndExpression_loop m (LogicalExpression op l r) p2 = OK (LogicalExpression op l r, p2)"
    using m assms(5) by (simp add: loop_stop)
  have "logicalAndExpression_loop (Suc m) l p1 = OK (LogicalExpression op l r, p2)"
    by (simp add: la e u2 l3)
  then show "logicalAndExpression n p = OK (LogicalExpression op l r, p2)"
    unfolding n logicalAndExpression.simps u1 by simp
qed

lemma bin_logicalOr:
  assumes "parses logicalAndExpression K1 p l p1" and "at p1 (op @ s1)" and "lexes op LOGICAL_OR s1"
    and "parses logicalAndExpression K2 (after p1) r p2" and "Type (lookAhead p2) \<noteq> LOGICAL_OR"
  shows "parses logicalOrExpression (max K1 K2 + 3) p (LogicalExpression op l r) p2"
  unfolding parses_def
proof (intro allI impI)
  fix n assume "max K1 K2 + 3 \<le> n"
  then obtain m where n: "n = Suc (Suc m)" and m: "max K1 K2 + 1 \<le> m"
    using fuel_split(3) [of "max K1 K2 + 1" n] by auto
  have la: "lookAhead p1 = \<lparr>Type = LOGICAL_OR, Value = op\<rparr>"
    by (rule at_lexes(1) [OF assms(3,2)])
  have e: "eat LOGICAL_OR p1 = OK (\<lparr>Type = LOGICAL_OR, Value = op\<rparr>, after p1)"
    by (rule at_eat [OF assms(3,2)]) simp
  have u1: "logicalAndExpression (Suc m) p = OK (l, p1)"
    using m by (intro parsesD [OF assms(1)]) simp
  have u2: "logicalAndExpression m (after p1) = OK (r, p2)"
    using m by (intro parsesD [OF assms(4)]) simp
  have l3: "logicalOrExpression_loop m (LogicalExpression op l r) p2 = OK (LogicalExpression op l r, p2)"
    using m assms(5) by (simp add: loop_stop)
  have "logicalOrExpression_loop (Suc m) l p1 = OK (LogicalExpression op l r, p2)"
    by (simp add: la e u2 l3)
  then show "logicalOrExpression n p = OK (LogicalExpression op l r, p2)"
    unfolding n logicalOrExpression.simps u1 by simp
qed

lemma un_op:
  assumes "at p (op @ s1)" and "lexes op T s1" and "T = ADDITIVE_OPERATOR \<or> T = LOGICAL_NOT"
    and "op \<noteq> []" and "parses unary K (after p) r p2"
  shows "parses unary (K + 1) p (UnaryExpression op r) p2"
  unfolding parses_def
proof (intro allI impI)
  fix n assume "K + 1 \<le> n"
  then obtain m where n: "n = Suc m" and m: "K \<le> m"
    using fuel_split(2) by blast
  have la: "lookAhead p = \<lparr>Type = T, Value = op\<rparr>"
    by (rule at_lexes(1) [OF assms(2,1)])
  have e: "eat T p = OK (\<lparr>Type = T, Value = op\<rparr>, after p)"
    using assms(3) by (intro at_eat [OF assms(2,1)]) auto
  have u: "unary m (after p) = OK (r, p2)"
    using m by (rule parsesD [OF assms(5)])
  from assms(3) show "unary n p = OK (UnaryExpression op r, p2)"
    using assms(4) e by (auto simp: n la u)
qed

lemma prim_atom:
  assumes "at p (v @ s)"
  shows "lexes v IDENTIFIER s \<Longrightarrow> parses primary 1 p (Identifier v) (after p)"
    and "lexes v NUMBER s \<Longrightarrow> ParseInt v = Inr k \<Longrightarrow> parses primary 1 p (NumericLiteral k) (after p)"
    and "lexes v TRUE s \<Longrightarrow> parses primary 1 p (BooleanLiteral True) (after p)"
    and "lexes v FALSE s \<Longrightarrow> parses primary 1 p (BooleanLiteral False) (after p)"
    and "lexes v NULL s \<Longrightarrow> parses primary 1 p NullLiteral (after p)"
    and "lexes v THIS s \<Longrightarrow> parses primary 1 p ThisExpression (after p)"
    and "lexes v STRING s \<Longrightarrow> parses primary 1 p (StringLiteral v) (after p)"
proof -
  have *: "parses primary 1 p x (after p)"
    if "\<And>m. primary (Suc m) p = OK (x, after p)" for x
    unfolding parses_def using that fuel_split(1) by metis
  show "lexes v IDENTIFIER s \<Longrightarrow> parses primary 1 p (Identifier v) (after p)"
    using at_lexes(1) [OF _ assms] at_eat [OF _ assms]
    by (intro *) (simp add: isLiteral_def identifier_def)
  show "lexes v NUMBER s \<Longrightarrow> ParseInt v = Inr k \<Longrightarrow> parses primary 1 p (NumericLiteral k) (after p)"
    using at_lexes(1) [OF _ assms] at_eat [OF _ assms]
    by (intro *) (simp add: isLiteral_def literal_def)
  show "lexes v TRUE s \<Longrightarrow> parses primary 1 p (BooleanLiteral True) (after p)"
    using at_lexes(1) [OF _ assms] at_eat [OF _ assms]
    by (intro *) (simp add: isLiteral_def literal_def)
  show "lexes v FALSE s \<Longrightarrow> parses primary 1 p (BooleanLiteral False) (after p)"
    using at_lexes(1) [OF _ assms] at_eat [OF _ assms]
    by (intro *) (simp add: isLiteral_def literal_def)
  show "lexes v NULL s \<Longrightarrow> parses primary 1 p NullLiteral (after p)"
    using at_lexes(1) [OF _ assms] at_eat [OF _ assms]
    by (intro *) (simp add: isLiteral_def literal_def)
  show "lexes v THIS s \<Longrightarrow> parses primary 1 p ThisExpression (after p)"
    using at_lexes(1) [OF _ assms] at_eat [OF _ assms]
    by (intro *) (simp add: isLiteral_def)
  show "lexes v STRING s \<Longrightarrow> parses primary 1 p (StringLiteral v) (after p)"
    using at_lexes(1) [OF _ assms] at_eat [OF _ assms]
    by (intro *) (simp add: isLiteral_def literal_def)
qed

lemma prim_paren:
  assumes "at p (''('' @ s1)" and "parses expression K (after p) t p2" and "at p2 ('')'' @ s)"
  shows "parses primary (K + 1) p t (after p2)" and "at (after p2) s"
proof -
  show "at (after p2) s"
    by (rule at_lexes(2) [OF lexes_punct(2) assms(3)])
  show "parses primary (K + 1) p t (after p2)"
    unfolding parses_def
  proof (intro allI impI)
    fix n assume "K + 1 \<le> n"
    then obtain m where n: "n = Suc m" and m: "K \<le> m"
      using fuel_split(2) by blast
    have la: "lookAhead p = \<lparr>Type = LPAREN, Value = ''(''\<rparr>"
      by (rule at_lexes(1) [OF lexes_punct(1) assms(1)])
    have e1: "eat LPAREN p = OK (\<lparr>Type = LPAREN, Value = ''(''\<rparr>, after p)"
      by (rule at_eat [OF lexes_punct(1) assms(1)]) simp
    have e2: "eat RPAREN p2 = OK (\<lparr>Type = RPAREN, Value = '')''\<rparr>, after p2)"
      by (rule at_eat [OF lexes_punct(2) assms(3)]) simp
    have u: "expression m (after p) = OK (t, p2)"
      using m by (rule parsesD [OF assms(2)])
    show "primary n p = OK (t, after p2)"
      by (simp add: n la isLiteral_def e1 u e2)
  qed
qed

lemma member_dot:
  assumes "at p1 (''.'' @ v @ s)" and "valid_name v" and "nw s"
  shows "memberExp_loop (Suc m) obj p1 =
           memberExp_loop m (MemberExpression False obj (Identifier v)) (after (after p1))"
    and "at (after (after p1)) s"
proof -
  have a2: "at (after p1) (v @ s)"
    by (rule at_lexes(2) [OF lexes_punct(6) assms(1)])
  have lv: "lexes v IDENTIFIER s"
    by (rule lexes_name [OF assms(2,3)])
  show "at (after (after p1)) s"
    by (rule at_lexes(2) [OF lv a2])
  have la: "lookAhead p1 = \<lparr>Type = DOT, Value = ''.''\<rparr>"
    by (rule at_lexes(1) [OF lexes_punct(6) assms(1)])
  have e1: "eat DOT p1 = OK (\<lparr>Type = DOT, Value = ''.''\<rparr>, after p1)"
    by (rule at_eat [OF lexes_punct(6) assms(1)]) simp
  have e2: "eat IDENTIFIER (after p1) = OK (\<lparr>Type = IDENTIFIER, Value = v\<rparr>, after (after p1))"
    by (rule at_eat [OF lv a2]) simp
  show "memberExp_loop (Suc m) obj p1 =
           memberExp_loop m (MemberExpression False obj (Identifier v)) (after (after p1))"
    by (simp add: la e1 e2 identifier_def)
qed

lemma member_bracket:
  assumes "at p1 (''['' @ s1)" and "parses expression K (after p1) prop p2"
    and "at p2 ('']'' @ s)" and "K \<le> m"
  shows "memberExp_loop (Suc m) obj p1 = memberExp_loop m (MemberExpression True obj prop) (after p2)"
    and "at (after p2) s"
proof -
  show "at (after p2) s"
    by (rule at_lexes(2) [OF lexes_punct(4) assms(3)])
  have la: "lookAhead p1 = \<lparr>Type = LBRACKET, Value = ''[''\<rparr>"
    by (rule at_lexes(1) [OF lexes_punct(3) assms(1)])
  have e1: "eat LBRACKET p1 = OK (\<lparr>Type = LBRACKET, Value = ''[''\<rparr>, after p1)"
    by (rule at_eat [OF lexes_punct(3) assms(1)]) simp
  have e2: "eat RBRACKET p2 = OK (\<lparr>Type = RBRACKET, Value = '']''\<rparr>, after p2)"
    by (rule at_eat [OF lexes_punct(4) assms(3)]) simp
  have u: "expression m (after p1) = OK (prop, p2)"
    by (rule parsesD [OF assms(2,4)])
  show "memberExp_loop (Suc m) obj p1 = memberExp_loop m (MemberExpression True obj prop) (after p2)"
    by (simp add: la e1 e2 u)
qed

lemma member_base:
  assumes "parses primary K p t p'" and "K + 1 \<le> n"
  shows "memberExp n p = memberExp_loop (n - 1) t p'"
proof -
  from assms(2) obtain m where n: "n = Suc m" and m: "K \<le> m"
    using fuel_split(2) by blast
  have "primary m p = OK (t, p')"
    by (rule parsesD [OF assms(1) m])
  then show ?thesis by (simp add: n)
qed

lemma unary_of_callMember:
  assumes "parses callMemberExp K p t p'"
    and "Type (lookAhead p) \<noteq> ADDITIVE_OPERATOR" and "Type (lookAhead p) \<noteq> LOGICAL_NOT"
  shows "parses unary (K + 2) p t p'"
  unfolding parses_def
proof (intro allI impI)
  fix n assume "K + 2 \<le> n"
  then obtain m where n: "n = Suc (Suc m)" and m: "K \<le> m"
    using fuel_split(3) by blast
  have "callMemberExp m p = OK (t, p')"
    by (rule parsesD [OF assms(1) m])
  with assms(2,3) show "unary n p = OK (t, p')"
    by (simp add: n)
qed

lemma callMember_of_member:
  assumes "\<And>n. F \<le> n \<Longrightarrow> memberExp n p = memberExp_loop (n - D) t p'" and "D < F"
    and "Type (lookAhead p) \<noteq> SUPER"
    and "Type (lookAhead p') \<noteq> DOT" and "Type (lookAhead p') \<noteq> LBRACKET"
    and "Type (lookAhead p') \<noteq> LPAREN"
  shows "parses callMemberExp (F + 1) p t p'"
  unfolding parses_def
proof (intro allI impI)
  fix n assume "F + 1 \<le> n"
  then obtain m where n: "n = Suc m" and m: "F \<le> m"
    using fuel_split(2) by blast
  from m assms(2) have "0 < m - D" by simp
  with assms(4,5) have "memberExp_loop (m - D) t p' = OK (t, p')"
    by (simp add: loop_stop)
  with assms(1) [OF m] have "memberExp m p = OK (t, p')" by simp
  with assms(3,6) show "callMemberExp n p = OK (t, p')"
    by (simp add: n)
qed

lemma callee_of_member:
  assumes "\<And>n. F \<le> n \<Longrightarrow> memberExp n p = memberExp_loop (n - D) t p'" and "D < F"
    and "Type (lookAhead p) \<noteq> SUPER"
    and "Type (lookAhead p') = LPAREN" and "F + 1 \<le> n"
  shows "callMemberExp n p = callExpression (n - 1) t p'"
proof -
  from assms(5) obtain m where n: "n = Suc m" and m: "F \<le> m"
    using fuel_split(2) by blast
  from m assms(2) have "0 < m - D" by simp
  with assms(4) have "memberExp_loop (m - D) t p' = OK (t, p')"
    by (simp add: loop_stop)
  with assms(1) [OF m] have "memberExp m p = OK (t, p')" by simp
  with assms(3,4) show ?thesis
    by (simp add: n)
qed

lemma callee_super:
  assumes "at p (''super'' @ s)" and "nw s" and "1 \<le> n"
  shows "callMemberExp n p = callExpression (n - 1) SuperExpression (after p)"
    and "at (after p) s"
proof -
  note l = lexes_keyword(5) [OF assms(2)]
  show "at (after p) s"
    by (rule at_lexes(2) [OF l assms(1)])
  from assms(3) obtain m where n: "n = Suc m"
    using fuel_split(1) by blast
  have la: "lookAhead p = \<lparr>Type = SUPER, Value = ''super''\<rparr>"
    by (rule at_lexes(1) [OF l assms(1)])
  have e: "eat SUPER p = OK (\<lparr>Type = SUPER, Value = ''super''\<rparr>, after p)"
    by (rule at_eat [OF l assms(1)]) simp
  show "callMemberExp n p = callExpression (n - 1) SuperExpression (after p)"
    by (simp add: n la e super_def)
qed

lemma call_step:
  assumes "parses arguments K p1 args p2" and "K + 1 \<le> n"
  shows "callExpression n callee p1 =
    (if Type (lookAhead p2) = LPAREN then callExpression (n - 1) (CallExpression callee args) p2
     else OK (CallExpression callee args, p2))"
proof -
  from assms(2) obtain m where n: "n = Suc m" and m: "K \<le> m"
    using fuel_split(2) by blast
  have "arguments m p1 = OK (args, p2)"
    by (rule parsesD [OF assms(1) m])
  then show ?thesis by (simp add: n)
qed

lemma chain_len_fuel: "chain_len t < fuel t"
  by (induction t) auto

lemma call_len_fuel: "call_len t < fuel t"
  by (induction t) auto

lemma Join_Cons: "Join (x # xs) sep = x @ concat (map (\<lambda>y. sep @ y) xs)"
  by (induction xs arbitrary: x) auto

lemma nw_simps [simp]:
  "nw []" "nw (CHR ''('' # s)" "nw (CHR '')'' # s)" "nw (CHR ''['' # s)" "nw (CHR '']'' # s)"
  "nw (CHR '','' # s)" "nw (CHR ''.'' # s)" "nw (CHR ''<'' # s)" "nw (CHR ''>'' # s)"
  "nw (CHR ''='' # s)" "nw (CHR ''!'' # s)" "nw (CHR ''&'' # s)" "nw (CHR ''|'' # s)"
  "nw (CHR ''+'' # s)" "nw (CHR ''-'' # s)" "nw (CHR ''*'' # s)" "nw (CHR ''/'' # s)"
  by (simp_all add: nw_def is_word_def)

lemma unit_start_ToString: "printable t \<Longrightarrow> unit_start (ToString t @ s)"
proof (induction t arbitrary: s)
  case (NumericLiteral v)
  then have f: "FormatInt v = FormatUint (nat v)" by (simp add: FormatInt_def)
  from FormatUint_digits [of "nat v"] obtain c r where "FormatUint (nat v) = c # r" "is_digit c"
    by (cases "FormatUint (nat v)") auto
  then show ?case by (simp add: f unit_start_def digit_chars(1))
next
  case (Identifier v)
  then obtain c r where "v = c # r" "is_word c"
    by (cases v) (auto simp: valid_name_def)
  then show ?case by (simp add: unit_start_def)
next
  case (StringLiteral v)
  then have "quoted v" by simp
  then show ?case by (cases rule: quoted_cases) (simp_all add: unit_start_def)
next
  case (CallExpression callee args)
  then show ?case by (auto simp: unit_start_def is_word_def)
qed (auto simp: unit_start_def is_word_def)

lemma first_token:
  "printable t \<Longrightarrow> nw s \<Longrightarrow> at p (ToString t @ s) \<Longrightarrow>
     Type (lookAhead p) \<in> firsts \<or> (is_call t \<and> Type (lookAhead p) = SUPER)"
proof (induction t arbitrary: s)
  case (NumericLiteral v)
  then have f: "FormatInt v = FormatUint (nat v)" by (simp add: FormatInt_def)
  from FormatUint_digits [of "nat v"] NumericLiteral.prems(2)
  have "lexes (FormatUint (nat v)) NUMBER s" by (intro lexes_digits) simp_all
  from at_lexes(1) [OF this] NumericLiteral.prems(3) show ?case
    by (simp add: f firsts_def)
next
  case (StringLiteral v)
  then have l: "lexes v STRING s" by (intro lexes_string) simp
  from StringLiteral.prems(3) at_lexes(1) [OF l, of p] show ?case by (auto simp: firsts_def)
next
  case (BooleanLiteral b)
  have l: "lexes ''true'' TRUE s" "lexes ''false'' FALSE s"
    using BooleanLiteral.prems(2) by (rule lexes_keyword)+
  from BooleanLiteral.prems(3) at_lexes(1) [OF l(1), of p] at_lexes(1) [OF l(2), of p]
  show ?case by (cases b) (auto simp: firsts_def)
next
  case NullLiteral
  have l: "lexes ''null'' NULL s"
    using NullLiteral.prems(2) by (rule lexes_keyword)
  from NullLiteral.prems(3) at_lexes(1) [OF l, of p] show ?case by (auto simp: firsts_def)
next
  case ThisExpression
  have l: "lexes ''this'' THIS s"
    using ThisExpression.prems(2) by (rule lexes_keyword)
  from ThisExpression.prems(3) at_lexes(1) [OF l, of p] show ?case by (auto simp: firsts_def)
next
  case (Identifier v)
  then have l: "lexes v IDENTIFIER s"
    by (intro lexes_name) simp_all
  from Identifier.prems(3) at_lexes(1) [OF l, of p] show ?case by (auto simp: firsts_def)
next
  case (LogicalExpression op l r)
  with at_lexes(1) [OF lexes_punct(1), of p] show ?case by (auto simp: firsts_def)
next
  case (BinaryExpression op l r)
  with at_lexes(1) [OF lexes_punct(1), of p] show ?case by (auto simp: firsts_def)
next
  case (UnaryExpression op r)
  with at_lexes(1) [OF lexes_punct(1), of p] show ?case by (auto simp: firsts_def)
next
  case (MemberExpression c obj pr)
  from MemberExpression.prems have po: "printable obj" and nc: "\<not> is_call obj" by simp_all
  show ?case
  proof (cases c)
    case True
    with MemberExpression.prems have "at p (ToString obj @ (''['' @ ToString pr @ '']'' @ s))"
      by simp
    from MemberExpression.IH(1) [OF po _ this] nc show ?thesis by simp
  next
    case False
    with MemberExpression.prems have "at p (ToString obj @ (''.'' @ ToString pr @ s))"
      by simp
    from MemberExpression.IH(1) [OF po _ this] nc show ?thesis by simp
  qed
next
  case (CallExpression callee args)
  let ?rest = "''('' @ Join (map ToString args) '', '' @ '')'' @ s"
  from CallExpression.prems have a: "at p (ToString callee @ ?rest)" by simp
  show ?case
  proof (cases "callee = SuperExpression")
    case True
    have "lexes ''super'' SUPER ?rest" by (rule lexes_keyword) simp
    from at_lexes(1) [OF this] a True show ?thesis by simp
  next
    case False
    with CallExpression.prems have pc: "printable callee" by simp
    from CallExpression.IH(1) [OF pc _ a] show ?thesis by auto
  qed
qed simp_all

lemma unit_parse:
  assumes "reparses t" and "printable t" and "at p (ToString t @ s)" and "nw s"
    and "next_is s T" and "T \<noteq> DOT" and "T \<noteq> LBRACKET" and "T \<noteq> LPAREN"
  shows "\<exists>p'. at p' s \<and> parses unary (fuel t + 3) p t p'"
proof -
  from first_token [OF assms(2,4,3)]
  have f: "Type (lookAhead p) \<noteq> ADDITIVE_OPERATOR" "Type (lookAhead p) \<noteq> LOGICAL_NOT"
    "\<not> is_call t \<Longrightarrow> Type (lookAhead p) \<noteq> SUPER"
    by (auto simp: firsts_def)
  from assms(1,3,4) obtain p' where a: "at p' s"
    and r: "if is_call t
         then (\<forall>n\<ge>fuel t. callMemberExp n p =
                 (if Type (lookAhead p') = LPAREN then callExpression (n - call_len t) t p'
                  else OK (t, p')))
         else (\<forall>n\<ge>fuel t. memberExp n p = memberExp_loop (n - chain_len t) t p')"
    unfolding reparses_def by blast
  from next_isD [OF assms(5) a] have T: "Type (lookAhead p') = T" .
  have "parses callMemberExp (fuel t + 1) p t p'"
  proof (cases "is_call t")
    case True
    with r T assms(8) show ?thesis by (simp add: parses_def)
  next
    case False
    with r have "\<And>n. fuel t \<le> n \<Longrightarrow> memberExp n p = memberExp_loop (n - chain_len t) t p'"
      by simp
    then show ?thesis
      using chain_len_fuel f(3) [OF False] T assms(6,7,8)
      by (intro callMember_of_member) simp_all
  qed
  from unary_of_callMember [OF this f(1,2)] a show ?thesis
    by (auto simp: numeral_3_eq_3)
qed

lemma expr_parse:
  assumes "reparses t" and "printable t" and "at p (ToString t @ s)" and "nw s"
    and "next_is s T" and "stops T"
  shows "\<exists>p'. at p' s \<and> parses assignmentExpression (fuel t + 16) p t p'
            \<and> parses expression (fuel t + 17) p t p'"
proof -
  from assms(6) have "T \<noteq> DOT" "T \<noteq> LBRACKET" "T \<noteq> LPAREN"
    by (auto simp: stops_def)
  from unit_parse [OF assms(1-5) this] obtain p' where a: "at p' s"
    and u: "parses unary (fuel t + 3) p t p'" by blast
  from next_isD [OF assms(5) a] assms(6) have "stops (Type (lookAhead p'))" by simp
  from climb_all [OF u this] a show ?thesis
    by (auto simp: add.assoc)
qed

lemma node_factor:
  assumes l0: "parses unary K1 p1 l p2" and a2: "at p2 (op @ s1)" and lx: "lexes op MULTIPLICATIVE_OPERATOR s1"
    and r0: "parses unary K2 (after p2) r p4" and T4: "Type (lookAhead p4) = RPAREN"
  shows "parses expression (max K1 K2 + 30) p1 (BinaryExpression op l r) p4"
proof -
  have T2: "Type (lookAhead p2) = MULTIPLICATIVE_OPERATOR"
    using at_lexes(1) [OF lx a2] by simp
  have b0: "parses factor (max (K1) (K2) + 3) p1 (BinaryExpression op l r) p4"
    by (rule bin_factor [OF l0 a2 lx r0]) (simp add: T4)
  have b1: "parses term (max (K1) (K2) + 3 + 2) p1 (BinaryExpression op l r) p4"
    by (rule climb_term [OF b0]) (simp add: T4)
  have b2: "parses comparison (max (K1) (K2) + 3 + 2 + 2) p1 (BinaryExpression op l r) p4"
    by (rule climb_comparison [OF b1]) (simp add: T4)
  have b3: "parses equality (max (K1) (K2) + 3 + 2 + 2 + 2) p1 (BinaryExpression op l r) p4"
    by (rule climb_equality [OF b2]) (simp add: T4)
  have b4: "parses logicalAndExpression (max (K1) (K2) + 3 + 2 + 2 + 2 + 2) p1 (BinaryExpression op l r) p4"
    by (rule climb_logicalAnd [OF b3]) (simp add: T4)
  have b5: "parses logicalOrExpression (max (K1) (K2) + 3 + 2 + 2 + 2 + 2 + 2) p1 (BinaryExpression op l r) p4"
    by (rule climb_logicalOr [OF b4]) (simp add: T4)
  have "parses expression (max (K1) (K2) + 3 + 2 + 2 + 2 + 2 + 2 + 2) p1 (BinaryExpression op l r) p4"
    by (rule climb_assignment(2) [OF b5]) (simp add: T4 isAssignmentOperator_def)
  then show ?thesis
    by (rule parses_mono) arith
qed

lemma node_term:
  assumes l0: "parses unary K1 p1 l p2" and a2: "at p2 (op @ s1)" and lx: "lexes op ADDITIVE_OPERATOR s1"
    and r0: "parses unary K2 (after p2) r p4" and T4: "Type (lookAhead p4) = RPAREN"
  shows "parses expression (max K1 K2 + 30) p1 (BinaryExpression op l r) p4"
proof -
  have T2: "Type (lookAhead p2) = ADDITIVE_OPERATOR"
    using at_lexes(1) [OF lx a2] by simp
  have l1: "parses factor (K1 + 2) p1 l p2"
    by (rule climb_factor [OF l0]) (simp add: T2)
  have r1: "parses factor (K2 + 2) (after p2) r p4"
    by (rule climb_factor [OF r0]) (simp add: T4)
  have b1: "parses term (max (K1 + 2) (K2 + 2) + 3) p1 (BinaryExpression op l r) p4"
    by (rule bin_term [OF l1 a2 lx r1]) (simp add: T4)
  have b2: "parses comparison (max (K1 + 2) (K2 + 2) + 3 + 2) p1 (BinaryExpression op l r) p4"
    by (rule climb_comparison [OF b1]) (simp add: T4)
  have b3: "parses equality (max (K1 + 2) (K2 + 2) + 3 + 2 + 2) p1 (BinaryExpression op l r) p4"
    by (rule climb_equality [OF b2]) (simp add: T4)
  have b4: "parses logicalAndExpression (max (K1 + 2) (K2 + 2) + 3 + 2 + 2 + 2) p1 (BinaryExpression op l r) p4"
    by (rule climb_logicalAnd [OF b3]) (simp add: T4)
  have b5: "parses logicalOrExpression (max (K1 + 2) (K2 + 2) + 3 + 2 + 2 + 2 + 2) p1 (BinaryExpression op l r) p4"
    by (rule climb_logicalOr [OF b4]) (simp add: T4)
  have "parses expression (max (K1 + 2) (K2 + 2) + 3 + 2 + 2 + 2 + 2 + 2) p1 (BinaryExpression op l r) p4"
    by (rule climb_assignment(2) [OF b5]) (simp add: T4 isAssignmentOperator_def)
  then show ?thesis
    by (rule parses_mono) arith
qed

lemma node_comparison:
  assumes l0: "parses unary K1 p1 l p2" and a2: "at p2 (op @ s1)" and lx: "lexes op RELATIONAL_OPERATOR s1"
    and r0: "parses unary K2 (after p2) r p4" and T4: "Type (lookAhead p4) = RPAREN"
  shows "parses expression (max K1 K2 + 30) p1 (BinaryExpression op l r) p4"
proof -
  have T2: "Type (lookAhead p2) = RELATIONAL_OPERATOR"
    using at_lexes(1) [OF lx a2] by simp
  have l1: "parses factor (K1 + 2) p1 l p2"
    by (rule climb_factor [OF l0]) (simp add: T2)
  have r1: "parses factor (K2 + 2) (after p2) r p4"
    by (rule climb_factor [OF r0]) (simp add: T4)
  have l2: "parses term (K1 + 2 + 2) p1 l p2"
    by (rule climb_term [OF l1]) (simp add: T2)
  have r2: "parses term (K2 + 2 + 2) (after p2) r p4"
    by (rule climb_term [OF r1]) (simp add: T4)
  have b2: "parses comparison (max (K1 + 2 + 2) (K2 + 2 + 2) + 3) p1 (BinaryExpression op l r) p4"
    by (rule bin_comparison [OF l2 a2 lx r2]) (simp add: T4)
  have b3: "parses equality (max (K1 + 2 + 2) (K2 + 2 + 2) + 3 + 2) p1 (BinaryExpression op l r) p4"
    by (rule climb_equality [OF b2]) (simp add: T4)
  have b4: "parses logicalAndExpression (max (K1 + 2 + 2) (K2 + 2 + 2) + 3 + 2 + 2) p1 (BinaryExpression op l r) p4"
    by (rule climb_logicalAnd [OF b3]) (simp add: T4)
  have b5: "parses logicalOrExpression (max (K1 + 2 + 2) (K2 + 2 + 2) + 3 + 2 + 2 + 2) p1 (BinaryExpression op l r) p4"
    by (rule climb_logicalOr [OF b4]) (simp add: T4)
  have "parses expression (max (K1 + 2 + 2) (K2 + 2 + 2) + 3 + 2 + 2 + 2 + 2) p1 (BinaryExpression op l r) p4"
    by (rule climb_assignment(2) [OF b5]) (simp add: T4 isAssignmentOperator_def)
  then show ?thesis
    by (rule parses_mono) arith
qed

lemma node_equality:
  assumes l0: "parses unary K1 p1 l p2" and a2: "at p2 (op @ s1)" and lx: "lexes op EQUALITY_OPERATOR s1"
    and r0: "parses unary K2 (after p2) r p4" and T4: "Type (lookAhead p4) = RPAREN"
  shows "parses expression (max K1 K2 + 30) p1 (LogicalExpression op l r) p4"
proof -
  have T2: "Type (lookAhead p2) = EQUALITY_OPERATOR"
    using at_lexes(1) [OF lx a2] by simp
  have l1: "parses factor (K1 + 2) p1 l p2"
    by (rule climb_factor [OF l0]) (simp add: T2)
  have r1: "parses factor (K2 + 2) (after p2) r p4"
    by (rule climb_factor [OF r0]) (simp add: T4)
  have l2: "parses term (K1 + 2 + 2) p1 l p2"
    by (rule climb_term [OF l1]) (simp add: T2)
  have r2: "parses term (K2 + 2 + 2) (after p2) r p4"
    by (rule climb_term [OF r1]) (simp add: T4)
  have l3: "parses comparison (K1 + 2 + 2 + 2) p1 l p2"
    by (rule climb_comparison [OF l2]) (simp add: T2)
  have r3: "parses comparison (K2 + 2 + 2 + 2) (after p2) r p4"
    by (rule climb_comparison [OF r2]) (simp add: T4)
  have b3: "parses equality (max (K1 + 2 + 2 + 2) (K2 + 2 + 2 + 2) + 3) p1 (LogicalExpression op l r) p4"
    by (rule bin_equality [OF l3 a2 lx r3]) (simp add: T4)
  have b4: "parses logicalAndExpression (max (K1 + 2 + 2 + 2) (K2 + 2 + 2 + 2) + 3 + 2) p1 (LogicalExpression op l r) p4"
    by (rule climb_logicalAnd [OF b3]) (simp add: T4)
  have b5: "parses logicalOrExpression (max (K1 + 2 + 2 + 2) (K2 + 2 + 2 + 2) + 3 + 2 + 2) p1 (LogicalExpression op l r) p4"
    by (rule climb_logicalOr [OF b4]) (simp add: T4)
  have "parses expression (max (K1 + 2 + 2 + 2) (K2 + 2 + 2 + 2) + 3 + 2 + 2 + 2) p1 (LogicalExpression op l r) p4"
    by (rule climb_assignment(2) [OF b5]) (simp add: T4 isAssignmentOperator_def)
  then show ?thesis
    by (rule parses_mono) arith
qed

lemma node_logicalAnd:
  assumes l0: "parses unary K1 p1 l p2" and a2: "at p2 (op @ s1)" and lx: "lexes op LOGICAL_AND s1"
    and r0: "parses unary K2 (after p2) r p4" and T4: "Type (lookAhead p4) = RPAREN"
  shows "parses expression (max K1 K2 + 30) p1 (LogicalExpression op l r) p4"
proof -
  have T2: "Type (lookAhead p2) = LOGICAL_AND"
    using at_lexes(1) [OF lx a2] by simp
  have l1: "parses factor (K1 + 2) p1 l p2"
    by (rule climb_factor [OF l0]) (simp add: T2)
  have r1: "parses factor (K2 + 2) (after p2) r p4"
    by (rule climb_factor [OF r0]) (simp add: T4)
  have l2: "parses term (K1 + 2 + 2) p1 l p2"
    by (rule climb_term [OF l1]) (simp add: T2)
  have r2: "parses term (K2 + 2 + 2) (after p2) r p4"
    by (rule climb_term [OF r1]) (simp add: T4)
  have l3: "parses comparison (K1 + 2 + 2 + 2) p1 l p2"
    by (rule climb_comparison [OF l2]) (simp add: T2)
  have r3: "parses comparison (K2 + 2 + 2 + 2) (after p2) r p4"
    by (rule climb_comparison [OF r2]) (simp add: T4)
  have l4: "parses equality (K1 + 2 + 2 + 2 + 2) p1 l p2"
    by (rule climb_equality [OF l3]) (simp add: T2)
  have r4: "parses equality (K2 + 2 + 2 + 2 + 2) (after p2) r p4"
    by (rule climb_equality [OF r3]) (simp add: T4)
  have b4: "parses logicalAndExpression (max (K1 + 2 + 2 + 2 + 2) (K2 + 2 + 2 + 2 + 2) + 3) p1 (LogicalExpression op l r) p4"
    by (rule bin_logicalAnd [OF l4 a2 lx r4]) (simp add: T4)
  have b5: "parses logicalOrExpression (max (K1 + 2 + 2 + 2 + 2) (K2 + 2 + 2 + 2 + 2) + 3 + 2) p1 (LogicalExpression op l r) p4"
    by (rule climb_logicalOr [OF b4]) (simp add: T4)
  have "parses expression (max (K1 + 2 + 2 + 2 + 2) (K2 + 2 + 2 + 2 + 2) + 3 + 2 + 2) p1 (LogicalExpression op l r) p4"
    by (rule climb_assignment(2) [OF b5]) (simp add: T4 isAssignmentOperator_def)
  then show ?thesis
    by (rule parses_mono) arith
qed

lemma node_logicalOr:
  assumes l0: "parses unary K1 p1 l p2" and a2: "at p2 (op @ s1)" and lx: "lexes op LOGICAL_OR s1"
    and r0: "parses unary K2 (after p2) r p4" and T4: "Type (lookAhead p4) = RPAREN"
  shows "parses expression (max K1 K2 + 30) p1 (LogicalExpression op l r) p4"
proof -
  have T2: "Type (lookAhead p2) = LOGICAL_OR"
    using at_lexes(1) [OF lx a2] by simp
  have l1: "parses factor (K1 + 2) p1 l p2"
    by (rule climb_factor [OF l0]) (simp add: T2)
  have r1: "parses factor (K2 + 2) (after p2) r p4"
    by (rule climb_factor [OF r0]) (simp add: T4)
  have l2: "parses term (K1 + 2 + 2) p1 l p2"
    by (rule climb_term [OF l1]) (simp add: T2)
  have r2: "parses term (K2 + 2 + 2) (after p2) r p4"
    by (rule climb_term [OF r1]) (simp add: T4)
  have l3: "parses comparison (K1 + 2 + 2 + 2) p1 l p2"
    by (rule climb_comparison [OF l2]) (simp add: T2)
  have r3: "parses comparison (K2 + 2 + 2 + 2) (after p2) r p4"
    by (rule climb_comparison [OF r2]) (simp add: T4)
  have l4: "parses equality (K1 + 2 + 2 + 2 + 2) p1 l p2"
    by (rule climb_equality [OF l3]) (simp add: T2)
  have r4: "parses equality (K2 + 2 + 2 + 2 + 2) (after p2) r p4"
    by (rule climb_equality [OF r3]) (simp add: T4)
  have l5: "parses logicalAndExpression (K1 + 2 + 2 + 2 + 2 + 2) p1 l p2"
    by (rule climb_logicalAnd [OF l4]) (simp add: T2)
  have r5: "parses logicalAndExpression (K2 + 2 + 2 + 2 + 2 + 2) (after p2) r p4"
    by (rule climb_logicalAnd [OF r4]) (simp add: T4)
  have b5: "parses logicalOrExpression (max (K1 + 2 + 2 + 2 + 2 + 2) (K2 + 2 + 2 + 2 + 2 + 2) + 3) p1 (LogicalExpression op l r) p4"
    by (rule bin_logicalOr [OF l5 a2 lx r5]) (simp add: T4)
  have "parses expression (max (K1 + 2 + 2 + 2 + 2 + 2) (K2 + 2 + 2 + 2 + 2 + 2) + 3 + 2) p1 (LogicalExpression op l r) p4"
    by (rule climb_assignment(2) [OF b5]) (simp add: T4 isAssignmentOperator_def)
  then show ?thesis
    by (rule parses_mono) arith
qed

lemma binop_facts:
  assumes "op \<in> set [''*'', ''/'', ''+'', ''-'', ''<'', ''>'', ''<='', ''>='']" and "unit_start s1"
  shows "nw (op @ s1)" and "op \<noteq> []"
    and "\<exists>T. lexes op T s1 \<and>
           (T = MULTIPLICATIVE_OPERATOR \<or> T = ADDITIVE_OPERATOR \<or> T = RELATIONAL_OPERATOR)"
  using assms lexes_op1 [OF assms(2)] lexes_op2 [of s1] by auto

lemma logop_facts:
  assumes "op \<in> set [''||'', ''&&'', ''=='', ''!='']"
  shows "nw (op @ s1)" and "op \<noteq> []"
    and "\<exists>T. lexes op T s1 \<and> (T = EQUALITY_OPERATOR \<or> T = LOGICAL_AND \<or> T = LOGICAL_OR)"
  using assms lexes_op2 [of s1] by auto

lemma unop_facts:
  assumes "op \<in> set [''+'', ''-'', ''!'']" and "unit_start s1"
  shows "op \<noteq> []" and "\<exists>T. lexes op T s1 \<and> (T = ADDITIVE_OPERATOR \<or> T = LOGICAL_NOT)"
  using assms lexes_op1 [OF assms(2)] by auto

lemma node_binary:
  assumes "parses unary K1 p1 l p2" and "at p2 (op @ s1)" and "lexes op T s1"
    and "T = MULTIPLICATIVE_OPERATOR \<or> T = ADDITIVE_OPERATOR \<or> T = RELATIONAL_OPERATOR"
    and "parses unary K2 (after p2) r p4" and "Type (lookAhead p4) = RPAREN"
  shows "parses expression (max K1 K2 + 30) p1 (BinaryExpression op l r) p4"
proof -
  from assms(4) consider (c0) "T = MULTIPLICATIVE_OPERATOR" | (c1) "T = ADDITIVE_OPERATOR" | (c2) "T = RELATIONAL_OPERATOR"
    by blast
  then show ?thesis
  proof cases
    case c0
    from node_factor [OF assms(1,2) assms(3) [unfolded c0] assms(5,6)] show ?thesis .
  next
    case c1
    from node_term [OF assms(1,2) assms(3) [unfolded c1] assms(5,6)] show ?thesis .
  next
    case c2
    from node_comparison [OF assms(1,2) assms(3) [unfolded c2] assms(5,6)] show ?thesis .
  qed
qed

lemma node_logical:
  assumes "parses unary K1 p1 l p2" and "at p2 (op @ s1)" and "lexes op T s1"
    and "T = EQUALITY_OPERATOR \<or> T = LOGICAL_AND \<or> T = LOGICAL_OR"
    and "parses unary K2 (after p2) r p4" and "Type (lookAhead p4) = RPAREN"
  shows "parses expression (max K1 K2 + 30) p1 (LogicalExpression op l r) p4"
proof -
  from assms(4) consider (c0) "T = EQUALITY_OPERATOR" | (c1) "T = LOGICAL_AND" | (c2) "T = LOGICAL_OR"
    by blast
  then show ?thesis
  proof cases
    case c0
    from node_equality [OF assms(1,2) assms(3) [unfolded c0] assms(5,6)] show ?thesis .
  next
    case c1
    from node_logicalAnd [OF assms(1,2) assms(3) [unfolded c1] assms(5,6)] show ?thesis .
  next
    case c2
    from node_logicalOr [OF assms(1,2) assms(3) [unfolded c2] assms(5,6)] show ?thesis .
  qed
qed

lemma rest_args:
  "nw (concat (map (\<lambda>a. '', '' @ ToString a) as) @ '')'' @ s)"
  "\<exists>T. next_is (concat (map (\<lambda>a. '', '' @ ToString a) as) @ '')'' @ s) T \<and> stops T"
proof -
  show "nw (concat (map (\<lambda>a. '', '' @ ToString a) as) @ '')'' @ s)"
    by (cases as) simp_all
  show "\<exists>T. next_is (concat (map (\<lambda>a. '', '' @ ToString a) as) @ '')'' @ s) T \<and> stops T"
  proof (cases as)
    case Nil
    with next_is_lexes [OF lexes_punct(2), of s] show ?thesis
      by (auto simp: stops_def)
  next
    case (Cons a as')
    with next_is_lexes [OF lexes_punct(5), of "'' '' @ ToString a @ concat (map (\<lambda>a. '', '' @ ToString a) as') @ '')'' @ s"]
    show ?thesis by (auto simp: stops_def)
  qed
qed

lemma args_loop:
  assumes "\<And>a. a \<in> set as \<Longrightarrow> reparses a \<and> printable a"
    and "at p (concat (map (\<lambda>a. '', '' @ ToString a) as) @ '')'' @ s)"
  shows "\<exists>p'. at p' ('')'' @ s) \<and>
     (\<forall>n\<ge>sum_list (map (\<lambda>a. fuel a + 20) as) + 1. argumentList_loop n acc p = OK (acc @ as, p'))"
  using assms
proof (induction as arbitrary: acc p)
  case Nil
  then have a: "at p ('')'' @ s)" by simp
  from at_lexes(1) [OF lexes_punct(2) a] have "Type (lookAhead p) \<noteq> COMMA" by simp
  then have "\<forall>n\<ge>1. argumentList_loop n acc p = OK (acc, p)"
    by (simp add: loop_stop)
  with a show ?case by auto
next
  case (Cons a as)
  let ?rest = "concat (map (\<lambda>a. '', '' @ ToString a) as) @ '')'' @ s"
  from Cons.prems(1) have ra: "reparses a" and pa: "printable a" by simp_all
  from Cons.prems(2) have a0: "at p ('','' @ '' '' @ ToString a @ ?rest)" by simp
  have la: "lookAhead p = \<lparr>Type = COMMA, Value = '',''\<rparr>"
    by (rule at_lexes(1) [OF lexes_punct(5) a0])
  have e: "eat COMMA p = OK (\<lparr>Type = COMMA, Value = '',''\<rparr>, after p)"
    by (rule at_eat [OF lexes_punct(5) a0]) simp
  have "at (after p) ('' '' @ ToString a @ ?rest)"
    by (rule at_lexes(2) [OF lexes_punct(5) a0])
  then have a1: "at (after p) (ToString a @ ?rest)"
    by (rule at_skips [OF skips_space [OF unit_start_ToString [OF pa]]])
  from rest_args(2) [of as s] obtain T where T: "next_is ?rest T" "stops T" by blast
  from expr_parse [OF ra pa a1 rest_args(1) T] obtain p2 where a2: "at p2 ?rest"
    and u: "parses assignmentExpression (fuel a + 16) (after p) a p2" by blast
  from Cons.prems(1) have "\<And>b. b \<in> set as \<Longrightarrow> reparses b \<and> printable b" by simp
  from Cons.IH [OF this a2, of "acc @ [a]"] obtain p' where a': "at p' ('')'' @ s)"
    and l: "\<forall>n\<ge>sum_list (map (\<lambda>a. fuel a + 20) as) + 1.
              argumentList_loop n (acc @ [a]) p2 = OK ((acc @ [a]) @ as, p')" by blast
  have "argumentList_loop n acc p = OK (acc @ a # as, p')"
    if "sum_list (map (\<lambda>a. fuel a + 20) (a # as)) + 1 \<le> n" for n
  proof -
    from that obtain m where n: "n = Suc m"
      and m: "fuel a + 16 \<le> m" "sum_list (map (\<lambda>a. fuel a + 20) as) + 1 \<le> m"
      by (cases n) auto
    have "assignmentExpression m (after p) = OK (a, p2)"
      by (rule parsesD [OF u m(1)])
    moreover from l m(2) have "argumentList_loop m (acc @ [a]) p2 = OK (acc @ a # as, p')"
      by simp
    ultimately show ?thesis
      by (simp add: n la e)
  qed
  with a' show ?case by blast
qed

lemma arguments_parse:
  assumes "\<And>a. a \<in> set args \<Longrightarrow> reparses a \<and> printable a"
    and "at p (''('' @ Join (map ToString args) '', '' @ '')'' @ s)"
  shows "\<exists>p'. at p' s \<and> parses arguments (sum_list (map (\<lambda>a. fuel a + 20) args) + 5) p args p'"
proof -
  let ?J = "Join (map ToString args) '', ''"
  have la: "lookAhead p = \<lparr>Type = LPAREN, Value = ''(''\<rparr>"
    by (rule at_lexes(1) [OF lexes_punct(1) assms(2)])
  have e1: "eat LPAREN p = OK (\<lparr>Type = LPAREN, Value = ''(''\<rparr>, after p)"
    by (rule at_eat [OF lexes_punct(1) assms(2)]) simp
  have a1: "at (after p) (?J @ '')'' @ s)"
    by (rule at_lexes(2) [OF lexes_punct(1) assms(2)])
  show ?thesis
  proof (cases args)
    case Nil
    with a1 have a1': "at (after p) ('')'' @ s)" by simp
    have la1: "lookAhead (after p) = \<lparr>Type = RPAREN, Value = '')''\<rparr>"
      by (rule at_lexes(1) [OF lexes_punct(2) a1'])
    have e2: "eat RPAREN (after p) = OK (\<lparr>Type = RPAREN, Value = '')''\<rparr>, after (after p))"
      by (rule at_eat [OF lexes_punct(2) a1']) simp
    have "arguments n p = OK ([], after (after p))" if "1 \<le> n" for n
    proof -
      from that obtain m where "n = Suc m" by (cases n) auto
      then show ?thesis by (simp add: e1 la1 e2)
    qed
    moreover have "at (after (after p)) s"
      by (rule at_lexes(2) [OF lexes_punct(2) a1'])
    ultimately show ?thesis
      using Nil by (auto simp: parses_def)
  next
    case (Cons a as)
    let ?rest = "concat (map (\<lambda>a. '', '' @ ToString a) as) @ '')'' @ s"
    from assms(1) Cons have ra: "reparses a" and pa: "printable a" by simp_all
    from a1 Cons have a1': "at (after p) (ToString a @ ?rest)"
      by (simp add: Join_Cons comp_def)
    from first_token [OF pa rest_args(1) a1'] have f: "Type (lookAhead (after p)) \<noteq> RPAREN"
      by (auto simp: firsts_def)
    from rest_args(2) [of as s] obtain T where T: "next_is ?rest T" "stops T" by blast
    from expr_parse [OF ra pa a1' rest_args(1) T] obtain p2 where a2: "at p2 ?rest"
      and u: "parses assignmentExpression (fuel a + 16) (after p) a p2" by blast
    from assms(1) Cons have "\<And>b. b \<in> set as \<Longrightarrow> reparses b \<and> printable b" by simp
    from args_loop [OF this a2, of "[a]"] obtain p3 where a3: "at p3 ('')'' @ s)"
      and l: "\<forall>n\<ge>sum_list (map (\<lambda>a. fuel a + 20) as) + 1.
                argumentList_loop n [a] p2 = OK ([a] @ as, p3)" by blast
    have e2: "eat RPAREN p3 = OK (\<lparr>Type = RPAREN, Value = '')''\<rparr>, after p3)"
      by (rule at_eat [OF lexes_punct(2) a3]) simp
    have "arguments n p = OK (args, after p3)"
      if "sum_list (map (\<lambda>a. fuel a + 20) args) + 5 \<le> n" for n
    proof -
      from that Cons obtain m where n: "n = Suc (Suc (Suc m))"
        and m: "fuel a + 16 \<le> m" "sum_list (map (\<lambda>a. fuel a + 20) as) + 1 \<le> m"
        using fuel_split(4) [of "sum_list (map (\<lambda>a. fuel a + 20) args) + 2" n] by auto
      have x: "assignmentExpression (Suc m) (after p) = OK (a, p2)"
        using m(1) by (intro parsesD [OF u]) simp
      from l [rule_format, of "Suc m"] m(2)
      have y: "argumentList_loop (Suc m) [a] p2 = OK (a # as, p3)"
        by (simp del: argumentList_loop.simps)
      have "argumentList (Suc (Suc m)) (after p) = OK (a # as, p3)"
        unfolding argumentList.simps x using y by simp
      then show ?thesis
        unfolding n arguments.simps using e1 f e2 Cons by simp
    qed
    moreover have "at (after p3) s"
      by (rule at_lexes(2) [OF lexes_punct(2) a3])
    ultimately show ?thesis
      by (auto simp: parses_def)
  qed
qed

lemma reparses_primary:
  assumes "\<not> is_call t" and "chain_len t = 1"
    and "\<And>p s. at p (ToString t @ s) \<Longrightarrow> nw s \<Longrightarrow>
           \<exists>p'. at p' s \<and> parses primary (fuel t - 1) p t p'"
    and "0 < fuel t"
  shows "reparses t"
  unfolding reparses_def
proof (intro allI impI)
  fix p s
  assume "at p (ToString t @ s)" and "nw s"
  from assms(3) [OF this] obtain p' where a: "at p' s"
    and u: "parses primary (fuel t - 1) p t p'" by blast
  have "memberExp n p = memberExp_loop (n - chain_len t) t p'" if "fuel t \<le> n" for n
    using member_base [OF u, of n] that assms(2,4) by simp
  with a assms(1) show "\<exists>p'. at p' s \<and>
        (if is_call t
         then (\<forall>n\<ge>fuel t. callMemberExp n p =
                 (if Type (lookAhead p') = LPAREN then callExpression (n - call_len t) t p'
                  else OK (t, p')))
         else (\<forall>n\<ge>fuel t. memberExp n p = memberExp_loop (n - chain_len t) t p'))"
    by auto
qed

lemma reparses_paren:
  assumes "\<not> is_call t" and "chain_len t = 1" and "K + 2 \<le> fuel t"
    and "\<And>p s. at p (ToString t @ s) \<Longrightarrow> nw s \<Longrightarrow>
           at p (''('' @ drop 1 (ToString t @ s)) \<and>
           (\<exists>p2. at p2 ('')'' @ s) \<and> parses expression K (after p) t p2)"
  shows "reparses t"
proof (rule reparses_primary [OF assms(1,2)])
  fix p s
  assume "at p (ToString t @ s)" and "nw s"
  from assms(4) [OF this] obtain p2 where a0: "at p (''('' @ drop 1 (ToString t @ s))"
    and a2: "at p2 ('')'' @ s)" and u: "parses expression K (after p) t p2" by blast
  from prim_paren [OF a0 u a2] assms(3)
  show "\<exists>p'. at p' s \<and> parses primary (fuel t - 1) p t p'"
    by (auto simp: parses_def)
next
  from assms(3) show "0 < fuel t" by simp
qed

lemma reparses_all: "printable t \<Longrightarrow> reparses t"
proof (induction t)
  case (NumericLiteral v)
  then have f: "FormatInt v = FormatUint (nat v)" by (simp add: FormatInt_def)
  show ?case
  proof (rule reparses_primary)
    fix p s
    assume a: "at p (ToString (NumericLiteral v) @ s)" and n: "nw s"
    from FormatUint_digits [of "nat v"] n have l: "lexes (FormatInt v) NUMBER s"
      unfolding f by (intro lexes_digits) simp_all
    from NumericLiteral have pi: "ParseInt (FormatInt v) = Inr v"
      by (intro ParseInt_FormatInt) simp_all
    from a have a': "at p (FormatInt v @ s)" by simp
    from prim_atom(2) [OF a' l pi] at_lexes(2) [OF l a']
    show "\<exists>p'. at p' s \<and> parses primary (fuel (NumericLiteral v) - 1) p (NumericLiteral v) p'"
      by (auto simp: parses_def)
  qed simp_all
next
  case (StringLiteral v)
  show ?case
  proof (rule reparses_primary)
    fix p s
    assume a: "at p (ToString (StringLiteral v) @ s)" and n: "nw s"
    from StringLiteral have l: "lexes v STRING s" by (intro lexes_string) simp
    from a have a': "at p (v @ s)" by simp
    from prim_atom(7) [OF a' l] at_lexes(2) [OF l a']
    show "\<exists>p'. at p' s \<and> parses primary (fuel (StringLiteral v) - 1) p (StringLiteral v) p'"
      by (auto simp: parses_def)
  qed simp_all
next
  case (BooleanLiteral b)
  show ?case
  proof (rule reparses_primary)
    fix p s
    assume a: "at p (ToString (BooleanLiteral b) @ s)" and n: "nw s"
    show "\<exists>p'. at p' s \<and> parses primary (fuel (BooleanLiteral b) - 1) p (BooleanLiteral b) p'"
    proof (cases b)
      case True
      with a have a': "at p (''true'' @ s)" by simp
      from prim_atom(3) [OF a' lexes_keyword(1) [OF n]] at_lexes(2) [OF lexes_keyword(1) [OF n] a'] True
      show ?thesis by (auto simp: parses_def)
    next
      case False
      with a have a': "at p (''false'' @ s)" by simp
      from prim_atom(4) [OF a' lexes_keyword(2) [OF n]] at_lexes(2) [OF lexes_keyword(2) [OF n] a'] False
      show ?thesis by (auto simp: parses_def)
    qed
  qed simp_all
next
  case NullLiteral
  show ?case
  proof (rule reparses_primary)
    fix p s
    assume a: "at p (ToString NullLiteral @ s)" and n: "nw s"
    from a have a': "at p (''null'' @ s)" by simp
    from prim_atom(5) [OF a' lexes_keyword(3) [OF n]] at_lexes(2) [OF lexes_keyword(3) [OF n] a']
    show "\<exists>p'. at p' s \<and> parses primary (fuel NullLiteral - 1) p NullLiteral p'"
      by (auto simp: parses_def)
  qed simp_all
next
  case (AssignmentExpression op l r)
  then show ?case by simp
next
  case (LogicalExpression op l r)
  then have ops: "op \<in> set [''||'', ''&&'', ''=='', ''!='']" and pl: "printable l" and pr: "printable r"
    by simp_all
  note rl = LogicalExpression.IH(1) [OF pl] and rr = LogicalExpression.IH(2) [OF pr]
  show ?case
  proof (rule reparses_paren [where K = "max (fuel l + 3) (fuel r + 3) + 30"])
    fix p s
    assume a: "at p (ToString (LogicalExpression op l r) @ s)" and n: "nw s"
    let ?s1 = "ToString r @ '')'' @ s"
    from a have a0: "at p (''('' @ ToString l @ op @ ?s1)" by simp
    have a1: "at (after p) (ToString l @ op @ ?s1)"
      by (rule at_lexes(2) [OF lexes_punct(1) a0])
    from logop_facts(1,3) [OF ops, of ?s1] obtain T where nwo: "nw (op @ ?s1)"
      and lx: "lexes op T ?s1"
      and T: "T = EQUALITY_OPERATOR \<or> T = LOGICAL_AND \<or> T = LOGICAL_OR" by blast
    from T have T': "T \<noteq> DOT" "T \<noteq> LBRACKET" "T \<noteq> LPAREN" by auto
    from unit_parse [OF rl pl a1 nwo next_is_lexes [OF lx] T'] obtain p2
      where a2: "at p2 (op @ ?s1)" and ul: "parses unary (fuel l + 3) (after p) l p2" by blast
    have a3: "at (after p2) (ToString r @ '')'' @ s)"
      by (rule at_lexes(2) [OF lx a2])
    from unit_parse [OF rr pr a3 _ next_is_lexes [OF lexes_punct(2)]] obtain p4
      where a4: "at p4 ('')'' @ s)" and ur: "parses unary (fuel r + 3) (after p2) r p4" by auto
    have T4: "Type (lookAhead p4) = RPAREN"
      using at_lexes(1) [OF lexes_punct(2) a4] by simp
    from node_logical [OF ul a2 lx T ur T4] a4 a0
    show "at p (''('' @ drop 1 (ToString (LogicalExpression op l r) @ s)) \<and>
           (\<exists>p2. at p2 ('')'' @ s) \<and>
              parses expression (max (fuel l + 3) (fuel r + 3) + 30) (after p) (LogicalExpression op l r) p2)"
      by auto
  qed simp_all
next
  case (BinaryExpression op l r)
  then have ops: "op \<in> set [''*'', ''/'', ''+'', ''-'', ''<'', ''>'', ''<='', ''>='']"
    and pl: "printable l" and pr: "printable r"
    by simp_all
  note rl = BinaryExpression.IH(1) [OF pl] and rr = BinaryExpression.IH(2) [OF pr]
  show ?case
  proof (rule reparses_paren [where K = "max (fuel l + 3) (fuel r + 3) + 30"])
    fix p s
    assume a: "at p (ToString (BinaryExpression op l r) @ s)" and n: "nw s"
    let ?s1 = "ToString r @ '')'' @ s"
    from a have a0: "at p (''('' @ ToString l @ op @ ?s1)" by simp
    have a1: "at (after p) (ToString l @ op @ ?s1)"
      by (rule at_lexes(2) [OF lexes_punct(1) a0])
    from binop_facts [OF ops unit_start_ToString [OF pr, of "'')'' @ s"]]
    obtain T where nwo: "nw (op @ ?s1)" and lx: "lexes op T ?s1"
      and T: "T = MULTIPLICATIVE_OPERATOR \<or> T = ADDITIVE_OPERATOR \<or> T = RELATIONAL_OPERATOR"
      by blast
    from T have T': "T \<noteq> DOT" "T \<noteq> LBRACKET" "T \<noteq> LPAREN" by auto
    from unit_parse [OF rl pl a1 nwo next_is_lexes [OF lx] T'] obtain p2
      where a2: "at p2 (op @ ?s1)" and ul: "parses unary (fuel l + 3) (after p) l p2" by blast
    have a3: "at (after p2) (ToString r @ '')'' @ s)"
      by (rule at_lexes(2) [OF lx a2])
    from unit_parse [OF rr pr a3 _ next_is_lexes [OF lexes_punct(2)]] obtain p4
      where a4: "at p4 ('')'' @ s)" and ur: "parses unary (fuel r + 3) (after p2) r p4" by auto
    have T4: "Type (lookAhead p4) = RPAREN"
      using at_lexes(1) [OF lexes_punct(2) a4] by simp
    from node_binary [OF ul a2 lx T ur T4] a4 a0
    show "at p (''('' @ drop 1 (ToString (BinaryExpression op l r) @ s)) \<and>
           (\<exists>p2. at p2 ('')'' @ s) \<and>
              parses expression (max (fuel l + 3) (fuel r + 3) + 30) (after p) (BinaryExpression op l r) p2)"
      by auto
  qed simp_all
next
  case (UnaryExpression op r)
  then have ops: "op \<in> set [''+'', ''-'', ''!'']" and pr: "printable r" by simp_all
  note rr = UnaryExpression.IH [OF pr]
  show ?case
  proof (rule reparses_paren [where K = "fuel r + 3 + 1 + 14"])
    fix p s
    assume a: "at p (ToString (UnaryExpression op r) @ s)" and n: "nw s"
    let ?s1 = "ToString r @ '')'' @ s"
    from a have a0: "at p (''('' @ op @ ?s1)" by simp
    have a1: "at (after p) (op @ ?s1)"
      by (rule at_lexes(2) [OF lexes_punct(1) a0])
    from unop_facts [OF ops unit_start_ToString [OF pr, of "'')'' @ s"]]
    obtain T where ne: "op \<noteq> []" and lx: "lexes op T ?s1"
      and T: "T = ADDITIVE_OPERATOR \<or> T = LOGICAL_NOT" by blast
    have a3: "at (after (after p)) (ToString r @ '')'' @ s)"
      by (rule at_lexes(2) [OF lx a1])
    from unit_parse [OF rr pr a3 _ next_is_lexes [OF lexes_punct(2)]] obtain p4
      where a4: "at p4 ('')'' @ s)" and ur: "parses unary (fuel r + 3) (after (after p)) r p4"
      by auto
    have T4: "stops (Type (lookAhead p4))"
      using at_lexes(1) [OF lexes_punct(2) a4] by (simp add: stops_def)
    from climb_all(2) [OF un_op [OF a1 lx T ne ur] T4] a4 a0
    show "at p (''('' @ drop 1 (ToString (UnaryExpression op r) @ s)) \<and>
           (\<exists>p2. at p2 ('')'' @ s) \<and>
              parses expression (fuel r + 3 + 1 + 14) (after p) (UnaryExpression op r) p2)"
      by auto
  qed simp_all
next
  case (CallExpression callee args)
  let ?t = "CallExpression callee args"
  from CallExpression.prems have pa: "\<And>a. a \<in> set args \<Longrightarrow> printable a" by simp
  with CallExpression.IH(2) have ra: "\<And>a. a \<in> set args \<Longrightarrow> reparses a \<and> printable a" by blast
  let ?A = "sum_list (map (\<lambda>a. fuel a + 20) args) + 5"
  show ?case
    unfolding reparses_def
  proof (intro allI impI)
    fix p s
    assume a: "at p (ToString ?t @ s)" and n: "nw s"
    let ?s1 = "''('' @ Join (map ToString args) '', '' @ '')'' @ s"
    from a have a0: "at p (ToString callee @ ?s1)" by simp
    have "\<exists>p1 e. at p1 ?s1 \<and> 0 < e \<and> e \<le> fuel callee \<and> call_len ?t = e + 1 \<and>
            (\<forall>n\<ge>fuel callee + 1. callMemberExp n p = callExpression (n - e) callee p1)"
    proof (cases "callee = SuperExpression")
      case True
      with a0 have as: "at p (''super'' @ ?s1)" by simp
      from callee_super(1) [OF as] callee_super(2) [OF as _ order_refl] True show ?thesis
        by (intro exI [of _ "after p"] exI [of _ 1]) simp
    next
      case False
      with CallExpression.prems have pc: "printable callee" by simp
      note rc = CallExpression.IH(1) [OF pc]
      have lp: "lexes ''('' LPAREN (Join (map ToString args) '', '' @ '')'' @ s)"
        by (rule lexes_punct)
      have nws: "nw ?s1" by simp
      from rc a0 nws obtain p1 where a1: "at p1 ?s1"
        and r: "if is_call callee
         then (\<forall>n\<ge>fuel callee. callMemberExp n p =
                 (if Type (lookAhead p1) = LPAREN then callExpression (n - call_len callee) callee p1
                  else OK (callee, p1)))
         else (\<forall>n\<ge>fuel callee. memberExp n p = memberExp_loop (n - chain_len callee) callee p1)"
        unfolding reparses_def by blast
      have T1: "Type (lookAhead p1) = LPAREN"
        using at_lexes(1) [OF lp a1] by simp
      show ?thesis
      proof (cases "is_call callee")
        case True
        then obtain c0 as0 where c: "callee = CallExpression c0 as0"
          by (cases callee) auto
        from True r T1 have "\<forall>n\<ge>fuel callee + 1.
            callMemberExp n p = callExpression (n - call_len callee) callee p1" by simp
        with a1 True call_len_fuel [of callee] c show ?thesis
          by (intro exI [of _ p1] exI [of _ "call_len callee"]) auto
      next
        case nc: False
        from first_token [OF pc _ a0] nc have ns: "Type (lookAhead p) \<noteq> SUPER"
          by (auto simp: firsts_def)
        from nc r have m: "\<And>n. fuel callee \<le> n \<Longrightarrow>
            memberExp n p = memberExp_loop (n - chain_len callee) callee p1" by simp
        have "\<forall>n\<ge>fuel callee + 1. callMemberExp n p = callExpression (n - 1) callee p1"
          using callee_of_member [OF m chain_len_fuel ns T1] by blast
        with a1 nc chain_len_fuel [of callee] show ?thesis
          by (intro exI [of _ p1] exI [of _ 1]) auto
      qed
    qed
    then obtain p1 e where a1: "at p1 ?s1" and e: "0 < e" "e \<le> fuel callee" "call_len ?t = e + 1"
      and c: "\<forall>n\<ge>fuel callee + 1. callMemberExp n p = callExpression (n - e) callee p1"
      by blast
    from arguments_parse [OF ra a1] obtain p2 where a2: "at p2 s"
      and ar: "parses arguments ?A p1 args p2" by blast
    have "callMemberExp n p =
            (if Type (lookAhead p2) = LPAREN then callExpression (n - call_len ?t) ?t p2
             else OK (?t, p2))" if "fuel ?t \<le> n" for n
    proof -
      from that e have 1: "fuel callee + 1 \<le> n" and 2: "?A + 1 \<le> n - e" by simp_all
      from c 1 have "callMemberExp n p = callExpression (n - e) callee p1" by simp
      also from call_step [OF ar 2] e(3)
      have "\<dots> = (if Type (lookAhead p2) = LPAREN then callExpression (n - call_len ?t) ?t p2
             else OK (?t, p2))" by simp
      finally show ?thesis .
    qed
    with a2 show "\<exists>p'. at p' s \<and>
        (if is_call ?t
         then (\<forall>n\<ge>fuel ?t. callMemberExp n p =
                 (if Type (lookAhead p') = LPAREN then callExpression (n - call_len ?t) ?t p'
                  else OK (?t, p')))
         else (\<forall>n\<ge>fuel ?t. memberExp n p = memberExp_loop (n - chain_len ?t) ?t p'))"
      by auto
  qed
next
  case (MemberExpression c obj pr)
  let ?t = "MemberExpression c obj pr"
  from MemberExpression.prems have po: "printable obj" and nc: "\<not> is_call obj" by simp_all
  note ro = MemberExpression.IH(1) [OF po]
  show ?case
    unfolding reparses_def
  proof (intro allI impI)
    fix p s
    assume a: "at p (ToString ?t @ s)" and n: "nw s"
    have "\<exists>p'. at p' s \<and> (\<forall>n\<ge>fuel ?t. memberExp n p = memberExp_loop (n - chain_len ?t) ?t p')"
    proof (cases c)
      case False
      with MemberExpression.prems obtain v where pr: "pr = Identifier v" and v: "valid_name v"
        by (cases pr) auto
      from a False pr have a0: "at p (ToString obj @ ''.'' @ v @ s)" by simp
      have nws: "nw (''.'' @ v @ s)" by simp
      from ro a0 nws obtain p1 where a1: "at p1 (''.'' @ v @ s)"
        and "if is_call obj
         then (\<forall>n\<ge>fuel obj. callMemberExp n p =
                 (if Type (lookAhead p1) = LPAREN then callExpression (n - call_len obj) obj p1
                  else OK (obj, p1)))
         else (\<forall>n\<ge>fuel obj. memberExp n p = memberExp_loop (n - chain_len obj) obj p1)"
        unfolding reparses_def by blast
      with nc have m: "\<forall>n\<ge>fuel obj. memberExp n p = memberExp_loop (n - chain_len obj) obj p1"
        by simp
      note d = member_dot [OF a1 v n]
      have "memberExp n p = memberExp_loop (n - chain_len ?t) ?t (after (after p1))"
        if "fuel ?t \<le> n" for n
      proof -
        from that chain_len_fuel [of obj] have 1: "fuel obj \<le> n"
          and 2: "n - chain_len obj = Suc (n - chain_len ?t)" by simp_all
        from m 1 have "memberExp n p = memberExp_loop (n - chain_len obj) obj p1" by simp
        also have "\<dots> = memberExp_loop (n - chain_len ?t) ?t (after (after p1))"
          unfolding 2 using d(1) False pr by simp
        finally show ?thesis .
      qed
      with d(2) show ?thesis by blast
    next
      case True
      with MemberExpression.prems have pp: "printable pr" by simp
      note rp = MemberExpression.IH(2) [OF pp]
      from a True have a0: "at p (ToString obj @ ''['' @ ToString pr @ '']'' @ s)" by simp
      have nws: "nw (''['' @ ToString pr @ '']'' @ s)" by simp
      from ro a0 nws obtain p1 where a1: "at p1 (''['' @ ToString pr @ '']'' @ s)"
        and "if is_call obj
         then (\<forall>n\<ge>fuel obj. callMemberExp n p =
                 (if Type (lookAhead p1) = LPAREN then callExpression (n - call_len obj) obj p1
                  else OK (obj, p1)))
         else (\<forall>n\<ge>fuel obj. memberExp n p = memberExp_loop (n - chain_len obj) obj p1)"
        unfolding reparses_def by blast
      with nc have m: "\<forall>n\<ge>fuel obj. memberExp n p = memberExp_loop (n - chain_len obj) obj p1"
        by simp
      have a2: "at (after p1) (ToString pr @ '']'' @ s)"
        by (rule at_lexes(2) [OF lexes_punct(3) a1])
      from expr_parse [OF rp pp a2 _ next_is_lexes [OF lexes_punct(4)]] obtain p3
        where a3: "at p3 ('']'' @ s)" and u: "parses expression (fuel pr + 17) (after p1) pr p3"
        by (auto simp: stops_def)
      have "memberExp n p = memberExp_loop (n - chain_len ?t) ?t (after p3)"
        if "fuel ?t \<le> n" for n
      proof -
        from that chain_len_fuel [of obj] have 1: "fuel obj \<le> n"
          and 2: "n - chain_len obj = Suc (n - chain_len ?t)"
          and 3: "fuel pr + 17 \<le> n - chain_len ?t" by simp_all
        from m 1 have "memberExp n p = memberExp_loop (n - chain_len obj) obj p1" by simp
        also have "\<dots> = memberExp_loop (n - chain_len ?t) ?t (after p3)"
          unfolding 2 using member_bracket(1) [OF a1 u a3 3] True by simp
        finally show ?thesis .
      qed
      with member_bracket(2) [OF a1 u a3] show ?thesis by blast
    qed
    then show "\<exists>p'. at p' s \<and>
        (if is_call ?t
         then (\<forall>n\<ge>fuel ?t. callMemberExp n p =
                 (if Type (lookAhead p') = LPAREN then callExpression (n - call_len ?t) ?t p'
                  else OK (?t, p')))
         else (\<forall>n\<ge>fuel ?t. memberExp n p = memberExp_loop (n - chain_len ?t) ?t p'))"
      by simp
  qed
next
  case SuperExpression
  then show ?case by simp
next
  case (Identifier v)
  show ?case
  proof (rule reparses_primary)
    fix p s
    assume a: "at p (ToString (Identifier v) @ s)" and n: "nw s"
    from Identifier n have l: "lexes v IDENTIFIER s"
      by (intro lexes_name) simp_all
    from a have a': "at p (v @ s)" by simp
    from prim_atom(1) [OF a' l] at_lexes(2) [OF l a']
    show "\<exists>p'. at p' s \<and> parses primary (fuel (Identifier v) - 1) p (Identifier v) p'"
      by (auto simp: parses_def)
  qed simp_all
next
  case ThisExpression
  show ?case
  proof (rule reparses_primary)
    fix p s
    assume a: "at p (ToString ThisExpression @ s)" and n: "nw s"
    from a have a': "at p (''this'' @ s)" by simp
    from prim_atom(6) [OF a' lexes_keyword(4) [OF n]] at_lexes(2) [OF lexes_keyword(4) [OF n] a']
    show "\<exists>p'. at p' s \<and> parses primary (fuel ThisExpression - 1) p ThisExpression p'"
      by (auto simp: parses_def)
  qed simp_all
next
  case (NewExpression callee args)
  then show ?case by simp
qed

lemma at_first_state: "at (first_state src) src"
  unfolding at_def
  by (rule exI [of _ src], rule exI [of _ 0])
     (simp add: first_state_def Tokenizer_New_def split: prod.splits)

lemma reparse_source:
  assumes "printable t"
  shows "parse_source (fuel t + 20 + k) (ToString t) = OK (Program [ExpressionStatement t])"
proof -
  let ?p0 = "first_state (ToString t)"
  have a0: "at ?p0 (ToString t @ [])"
    using at_first_state [of "ToString t"] by simp
  from expr_parse [OF reparses_all [OF assms] assms a0 _ next_is_end]
  obtain p' where a': "at p' []" and u: "parses expression (fuel t + 17) ?p0 t p'"
    by (auto simp: stops_def)
  from first_token [OF assms _ a0] have f: "Type (lookAhead ?p0) \<noteq> EOF"
    by (auto simp: firsts_def)
  have e: "Type (lookAhead p') = EOF"
    by (rule at_end [OF a'])
  obtain m where n: "fuel t + 20 + k = Suc (Suc m)" and m: "fuel t + 17 \<le> m"
    using fuel_split(3) [of "fuel t + 17" "fuel t + 20 + k"] by auto
  have x: "expression (Suc m) ?p0 = OK (t, p')"
    using m by (intro parsesD [OF u]) simp
  have l: "statementList_loop (Suc (Suc m)) EOF [] ?p0 = OK ([ExpressionStatement t], p')"
    unfolding statementList_loop.simps statement_def expressionStatement_def x
    using f e by simp
  show ?thesis
    unfolding parse_source_first_state program_def statementList_def n l
    by simp
qed

lemma member_of_call_parses:
  "parse_source (40 + k) ''(f()).b'' =
     OK (Program [ExpressionStatement
       (MemberExpression False (CallExpression (Identifier ''f'') []) (Identifier ''b''))])"
  by (simp add: fuel_add parser_defs tok_defs rx_defs)

lemma call_then_member_fails:
  "parse_source (40 + k) ''f().b'' = Panic (Message ''Unexpected primary expression.'')"
  by (simp add: fuel_add parser_defs tok_defs rx_defs)

lemma word_run_valid:
  assumes w: "rx_plus is_word inp \<noteq> []" and d: "rx_plus is_digit inp = []"
    and kw: "\<And>kw. kw \<in> set keyword_list \<Longrightarrow> rx_keyword kw inp = []"
  shows "valid_name (rx_plus is_word inp)"
proof -
  let ?v = "takeWhile is_word inp"
  from w obtain c r where inp: "inp = c # r" and c: "is_word c"
    by (cases inp) (auto simp: rx_plus_def split: if_splits)
  from d inp have nd: "\<not> is_digit c"
    by (auto simp: rx_plus_def split: if_splits)
  have hd: "hd ?v = c" using inp c by simp
  have all: "list_all is_word ?v"
    by (auto simp: list_all_iff dest: set_takeWhileD)
  have "?v \<notin> set keyword_list"
  proof
    assume m: "?v \<in> set keyword_list"
    have "take (length ?v) inp = ?v"
      by (simp add: takeWhile_eq_take [symmetric])
    moreover have "(case drop (length ?v) inp of [] \<Rightarrow> True | c # _ \<Rightarrow> \<not> is_word c)"
    proof -
      have dd: "drop (length ?v) inp = dropWhile is_word inp"
        by (simp add: dropWhile_eq_drop)
      show ?thesis
      proof (cases "dropWhile is_word inp")
        case Nil
        show ?thesis unfolding dd Nil by simp
      next
        case (Cons a list)
        from hd_dropWhile [of is_word inp] have "\<not> is_word a" unfolding Cons by simp
        then show ?thesis unfolding dd Cons by simp
      qed
    qed
    ultimately have "rx_keyword ?v inp = ?v"
      by (simp add: rx_keyword_def starts_with_def)
    with kw [OF m] w show False by (simp add: rx_plus_def)
  qed
  with w all hd nd show ?thesis
    by (simp add: valid_name_def rx_plus_def)
qed

lemma rules_loop_append:
  "rules_loop (xs @ ys) inp t =
     (if \<forall>x \<in> set xs. RegEx x inp = [] then rules_loop ys inp t else rules_loop xs inp t)"
  by (induction xs) (auto simp: match_def Let_def)

lemma rules_loop_result:
  "rules_loop rs inp t = (tok, t') \<Longrightarrow>
     tok = \<lparr>Type = ERROR, Value = []\<rparr> \<or>
     (\<exists>r \<in> set rs. RegEx r inp \<noteq> [] \<and>
        (if RuleType r = IGNORE
         then GetNextToken (t\<lparr>cursor := cursor t + length (RegEx r inp)\<rparr>) = (tok, t')
         else tok = \<lparr>Type = RuleType r, Value = RegEx r inp\<rparr>))"
  by (induction rs) (auto simp: match_def Let_def split: if_splits)

lemma Spec_last: "Spec = butlast Spec @ [Tuple (rx_plus is_word) IDENTIFIER]"
  by (simp add: Spec_def)

lemma Spec_butlast_ok:
  "r \<in> set (butlast Spec) \<Longrightarrow> RegEx r inp \<noteq> [] \<Longrightarrow> RuleType r \<noteq> IGNORE \<Longrightarrow>
     tok_ok \<lparr>Type = RuleType r, Value = RegEx r inp\<rparr>"
  by (auto simp: Spec_def tok_ok_def rx_class_def rx_relational_def rx_class_eq_def rx_lit_def
           rx_quoted_quoted split: list.splits if_splits)

lemma Spec_butlast_fail:
  assumes "\<forall>x \<in> set (butlast Spec). RegEx x inp = []"
  shows "rx_plus is_digit inp = []" and "kw \<in> set keyword_list \<Longrightarrow> rx_keyword kw inp = []"
  using assms by (auto simp: Spec_def keyword_list_def)

lemma rules_loop_Spec_cases:
  assumes "rules_loop Spec inp t = (tok, t')"
  shows "tok_ok tok \<or>
     (\<exists>m::string. m \<noteq> [] \<and> GetNextToken (t\<lparr>cursor := cursor t + length m\<rparr>) = (tok, t'))"
proof -
  have a: "rules_loop (butlast Spec @ [Tuple (rx_plus is_word) IDENTIFIER]) inp t = (tok, t')"
    by (subst Spec_last [symmetric]) (rule assms)
  show ?thesis
  proof (cases "\<forall>x \<in> set (butlast Spec). RegEx x inp = []")
  case True
  from a True have r: "rules_loop [Tuple (rx_plus is_word) IDENTIFIER] inp t = (tok, t')"
    by (simp add: rules_loop_append)
  show ?thesis
  proof (cases "rx_plus is_word inp = []")
    case True
    with r show ?thesis by (auto simp: match_def Let_def tok_ok_def)
  next
    case False
    from word_run_valid [OF False Spec_butlast_fail [OF True]]
    have "valid_name (rx_plus is_word inp)" .
    with r False show ?thesis by (auto simp: match_def Let_def tok_ok_def)
  qed
next
  case False
  with a have "rules_loop (butlast Spec) inp t = (tok, t')"
    by (simp add: rules_loop_append)
  from rules_loop_result [OF this] show ?thesis
  proof
    assume "tok = \<lparr>Type = ERROR, Value = []\<rparr>"
    then show ?thesis by (simp add: tok_ok_def)
  next
    assume "\<exists>r \<in> set (butlast Spec). RegEx r inp \<noteq> [] \<and>
        (if RuleType r = IGNORE
         then GetNextToken (t\<lparr>cursor := cursor t + length (RegEx r inp)\<rparr>) = (tok, t')
         else tok = \<lparr>Type = RuleType r, Value = RegEx r inp\<rparr>)"
    then obtain r where r: "r \<in> set (butlast Spec)" "RegEx r inp \<noteq> []"
      and c: "if RuleType r = IGNORE
         then GetNextToken (t\<lparr>cursor := cursor t + length (RegEx r inp)\<rparr>) = (tok, t')
         else tok = \<lparr>Type = RuleType r, Value = RegEx r inp\<rparr>" by blast
    show ?thesis
    proof (cases "RuleType r = IGNORE")
      case True
      with c r(2) show ?thesis by auto
    next
      case False
      with c Spec_butlast_ok [OF r False] show ?thesis by simp
    qed
  qed
qed
qed

lemma GetNextToken_tok_ok: "GetNextToken t = (tok, t') \<Longrightarrow> tok_ok tok"
proof (induction "length (input t) - cursor t" arbitrary: t rule: less_induct)
  case less
  show ?case
  proof (cases "hasMoreTokens t")
    case False
    with less.prems show ?thesis
      by (auto simp: GetNextToken.simps tok_ok_def)
  next
    case True
    with less.prems have "rules_loop Spec (drop (cursor t) (input t)) t = (tok, t')"
      by (simp add: GetNextToken.simps)
    from rules_loop_Spec_cases [OF this] show ?thesis
    proof
      assume "\<exists>m::string. m \<noteq> [] \<and> GetNextToken (t\<lparr>cursor := cursor t + length m\<rparr>) = (tok, t')"
      then obtain m :: string where m: "m \<noteq> []"
        and g: "GetNextToken (t\<lparr>cursor := cursor t + length m\<rparr>) = (tok, t')" by blast
      from m True have "length (input (t\<lparr>cursor := cursor t + length m\<rparr>))
          - cursor (t\<lparr>cursor := cursor t + length m\<rparr>) < length (input t) - cursor t"
        by (cases m) (auto simp: hasMoreTokens_def)
      from less.hyps [OF this g] show ?thesis .
    qed
  qed
qed

lemma yields_bind:
  "yields Q m \<Longrightarrow> (\<And>x p1. Q x \<Longrightarrow> tok_ok (lookAhead p1) \<Longrightarrow> yields R (f x p1)) \<Longrightarrow>
     yields R (bind m (case_prod f))"
  by (cases m) (auto simp: yields_def)

lemma yields_OK [simp]: "yields Q (OK (x, p)) = (Q x \<and> tok_ok (lookAhead p))"
  by (simp add: yields_def)

lemma yields_fail [simp]: "yields Q (Panic e)" "yields Q OutOfFuel"
  by (simp_all add: yields_def)

lemma yields_eat:
  "tok_ok (lookAhead p) \<Longrightarrow> yields (\<lambda>tok. tok_ok tok \<and> Type tok = ty) (eat ty p)"
  by (auto simp: eat_def Let_def yields_def dest: GetNextToken_tok_ok split: prod.splits)

lemma ParseInt_range: "ParseInt s = Inr v \<Longrightarrow> 0 \<le> v \<and> v < 9223372036854775808"
  by (auto simp: ParseInt_def split: if_splits sum.splits)

lemma tok_ok_ops:
  "tok_ok tok \<Longrightarrow> Type tok = IDENTIFIER \<Longrightarrow> valid_name (Value tok)"
  "tok_ok tok \<Longrightarrow> Type tok = STRING \<Longrightarrow> quoted (Value tok)"
  "tok_ok tok \<Longrightarrow> Type tok = ADDITIVE_OPERATOR \<Longrightarrow> Value tok = ''+'' \<or> Value tok = ''-''"
  "tok_ok tok \<Longrightarrow> Type tok = MULTIPLICATIVE_OPERATOR \<Longrightarrow> Value tok = ''*'' \<or> Value tok = ''/''"
  "tok_ok tok \<Longrightarrow> Type tok = RELATIONAL_OPERATOR \<Longrightarrow>
     Value tok = ''<'' \<or> Value tok = ''>'' \<or> Value tok = ''<='' \<or> Value tok = ''>=''"
  "tok_ok tok \<Longrightarrow> Type tok = EQUALITY_OPERATOR \<Longrightarrow> Value tok = ''=='' \<or> Value tok = ''!=''"
  "tok_ok tok \<Longrightarrow> Type tok = LOGICAL_AND \<Longrightarrow> Value tok = ''&&''"
  "tok_ok tok \<Longrightarrow> Type tok = LOGICAL_OR \<Longrightarrow> Value tok = ''||''"
  "tok_ok tok \<Longrightarrow> Type tok = LOGICAL_NOT \<Longrightarrow> Value tok = ''!''"
  by (auto simp: tok_ok_def)

lemma yields_leaves:
  assumes "tok_ok (lookAhead p)"
  shows "yields well_formed (identifier p)" "yields well_formed (literal p)"
    "yields well_formed (super p)" "yields (\<lambda>tok. True) (assignmentOperator p)"
proof -
  show "yields well_formed (identifier p)"
    unfolding identifier_def
    by (rule yields_bind [OF yields_eat [OF assms]]) (simp add: tok_ok_ops)
  show "yields well_formed (super p)"
    unfolding super_def
    by (rule yields_bind [OF yields_eat [OF assms]]) simp
  show "yields well_formed (literal p)"
    unfolding literal_def
    by (auto intro!: yields_bind [OF yields_eat [OF assms]] dest: ParseInt_range tok_ok_ops(2)
             split: sum.splits)
  show "yields (\<lambda>tok. True) (assignmentOperator p)"
    using yields_eat [OF assms, of SIMPLE_ASSIGN] yields_eat [OF assms, of COMPLEX_ASSIGN]
    by (auto simp: assignmentOperator_def yields_def split: result.splits)
qed

lemma yields_bind_wf:
  "yields well_formed m \<Longrightarrow>
     (\<And>x p1. well_formed x \<Longrightarrow> tok_ok (lookAhead p1) \<Longrightarrow> yields R (f x p1)) \<Longrightarrow>
     yields R (bind m (case_prod f))"
  by (rule yields_bind)

lemma yields_bind_wfs:
  "yields wfs m \<Longrightarrow>
     (\<And>x p1. wfs x \<Longrightarrow> tok_ok (lookAhead p1) \<Longrightarrow> yields R (f x p1)) \<Longrightarrow>
     yields R (bind m (case_prod f))"
  by (rule yields_bind)

lemma yields_bind_eat:
  "tok_ok (lookAhead p) \<Longrightarrow>
     (\<And>tok p1. tok_ok tok \<Longrightarrow> Type tok = ty \<Longrightarrow> tok_ok (lookAhead p1) \<Longrightarrow> yields R (f tok p1)) \<Longrightarrow>
     yields R (bind (eat ty p) (case_prod f))"
  by (rule yields_bind [OF yields_eat]) auto

lemma yields_bind_assignmentOperator:
  "tok_ok (lookAhead p) \<Longrightarrow>
     (\<And>tok p1. tok_ok (lookAhead p1) \<Longrightarrow> yields R (f tok p1)) \<Longrightarrow>
     yields R (bind (assignmentOperator p) (case_prod f))"
  by (rule yields_bind [OF yields_leaves(4)]) auto

lemma yields_bind_operator:
  "yields (\<lambda>operator. operator \<in> set [''+'', ''-'', ''!'', []]) m \<Longrightarrow>
     (\<And>x p1. x \<in> set [''+'', ''-'', ''!'', []] \<Longrightarrow> tok_ok (lookAhead p1) \<Longrightarrow> yields R (f x p1)) \<Longrightarrow>
     yields R (bind m (case_prod f))"
  by (rule yields_bind)

lemma yields_identifier:
  assumes "tok_ok (lookAhead p)"
  shows "yields (\<lambda>x. \<exists>v. x = Identifier v \<and> valid_name v) (identifier p)"
  unfolding identifier_def
  by (rule yields_bind [OF yields_eat [OF assms]]) (simp add: tok_ok_ops)

lemma yields_bind_identifier:
  assumes "tok_ok (lookAhead p)"
    and "\<And>v p1. valid_name v \<Longrightarrow> tok_ok (lookAhead p1) \<Longrightarrow> yields R (f (Identifier v) p1)"
  shows "yields R (bind (identifier p) (case_prod f))"
  by (rule yields_bind [OF yields_identifier [OF assms(1)]]) (auto intro: assms(2))

lemmas yields_binds = yields_bind_eat yields_bind_assignmentOperator yields_bind_wf
  yields_bind_wfs yields_bind_operator

lemma yields_all:
  "(\<forall>p. tok_ok (lookAhead p) \<longrightarrow> yields well_formed (expression n p)) \<and>
   (\<forall>p. tok_ok (lookAhead p) \<longrightarrow> yields well_formed (assignmentExpression n p)) \<and>
   (\<forall>p. tok_ok (lookAhead p) \<longrightarrow> yields well_formed (logicalOrExpression n p)) \<and>
   (\<forall>p l. tok_ok (lookAhead p) \<longrightarrow> well_formed l \<longrightarrow> yields well_formed (logicalOrExpression_loop n l p)) \<and>
   (\<forall>p. tok_ok (lookAhead p) \<longrightarrow> yields well_formed (logicalAndExpression n p)) \<and>
   (\<forall>p l. tok_ok (lookAhead p) \<longrightarrow> well_formed l \<longrightarrow> yields well_formed (logicalAndExpression_loop n l p)) \<and>
   (\<forall>p. tok_ok (lookAhead p) \<longrightarrow> yields well_formed (equality n p)) \<and>
   (\<forall>p l. tok_ok (lookAhead p) \<longrightarrow> well_formed l \<longrightarrow> yields well_formed (equality_loop n l p)) \<and>
   (\<forall>p. tok_ok (lookAhead p) \<longrightarrow> yields well_formed (comparison n p)) \<and>
   (\<forall>p l. tok_ok (lookAhead p) \<longrightarrow> well_formed l \<longrightarrow> yields well_formed (comparison_loop n l p)) \<and>
   (\<forall>p. tok_ok (lookAhead p) \<longrightarrow> yields well_formed (term n p)) \<and>
   (\<forall>p l. tok_ok (lookAhead p) \<longrightarrow> well_formed l \<longrightarrow> yields well_formed (term_loop n l p)) \<and>
   (\<forall>p. tok_ok (lookAhead p) \<longrightarrow> yields well_formed (factor n p)) \<and>
   (\<forall>p l. tok_ok (lookAhead p) \<longrightarrow> well_formed l \<longrightarrow> yields well_formed (factor_loop n l p)) \<and>
   (\<forall>p. tok_ok (lookAhead p) \<longrightarrow> yields well_formed (unary n p)) \<and>
   (\<forall>p. tok_ok (lookAhead p) \<longrightarrow> yields well_formed (leftHandSideExp n p)) \<and>
   (\<forall>p. tok_ok (lookAhead p) \<longrightarrow> yields well_formed (callMemberExp n p)) \<and>
   (\<forall>p. tok_ok (lookAhead p) \<longrightarrow> yields well_formed (memberExp n p)) \<and>
   (\<forall>p l. tok_ok (lookAhead p) \<longrightarrow> well_formed l \<longrightarrow> yields well_formed (memberExp_loop n l p)) \<and>
   (\<forall>p c. tok_ok (lookAhead p) \<longrightarrow> well_formed c \<longrightarrow> yields well_formed (callExpression n c p)) \<and>
   (\<forall>p. tok_ok (lookAhead p) \<longrightarrow> yields wfs (arguments n p)) \<and>
   (\<forall>p. tok_ok (lookAhead p) \<longrightarrow> yields wfs (argumentList n p)) \<and>
   (\<forall>p l. tok_ok (lookAhead p) \<longrightarrow> wfs l \<longrightarrow> yields wfs (argumentList_loop n l p)) \<and>
   (\<forall>p. tok_ok (lookAhead p) \<longrightarrow> yields well_formed (primary n p))"
proof (induction n)
  case 0
  show ?case by simp
next
  case (Suc n)
  note IH = Suc.IH [THEN conjunct1, rule_format]
    Suc.IH [THEN conjunct2, THEN conjunct1, rule_format]
  show ?case
  proof (intro conjI allI impI, goal_cases)
    case (19 p l)
    then show ?case
      by (auto intro!: yields_bind_identifier yields_bind_eat
                 yields_bind_wf [where m = "expression n p" for p]
               simp: Suc.IH)
  qed (auto intro!: yields_binds yields_leaves simp: Suc.IH dest: tok_ok_ops)
qed

lemma first_state_tok_ok: "tok_ok (lookAhead (first_state src))"
  by (cases "GetNextToken (Tokenizer_New src)")
     (auto simp: first_state_def dest: GetNextToken_tok_ok)

lemma yields_expression: "tok_ok (lookAhead p) \<Longrightarrow> yields well_formed (expression n p)"
  using yields_all [of n, THEN conjunct1] by simp

lemma yields_statementList_loop:
  "tok_ok (lookAhead p) \<Longrightarrow> \<forall>s \<in> set acc. case s of ExpressionStatement e \<Rightarrow> well_formed e \<Longrightarrow>
     yields (\<lambda>ss. \<forall>s \<in> set ss. case s of ExpressionStatement e \<Rightarrow> well_formed e)
       (statementList_loop n ty acc p)"
proof (induction n arbitrary: acc p)
  case 0
  show ?case by simp
next
  case (Suc n)
  have "yields (\<lambda>s. case s of ExpressionStatement e \<Rightarrow> well_formed e) (statement n p)"
    unfolding statement_def expressionStatement_def
    by (rule yields_bind [OF yields_expression [OF Suc.prems(1)]]) simp
  then have "yields (\<lambda>ss. \<forall>s \<in> set ss. case s of ExpressionStatement e \<Rightarrow> well_formed e)
      (bind (statement n p) (\<lambda>(s, p1). statementList_loop n ty (acc @ [s]) p1))"
    by (rule yields_bind) (use Suc.prems(2) in \<open>auto intro!: Suc.IH\<close>)
  with Suc.prems show ?case by simp
qed

lemma parsed_well_formed:
  assumes "parse_source n src = OK (Program [ExpressionStatement t])"
  shows "well_formed t"
proof -
  from assms obtain p' where
    "statementList_loop n EOF [] (first_state src) = OK ([ExpressionStatement t], p')"
    by (auto simp: parse_source_first_state program_def statementList_def bind_OK)
  with yields_statementList_loop [OF first_state_tok_ok, of "[]" n EOF src]
  show ?thesis by (simp add: yields_def)
qed

lemma pure_well_formed_printable: "pure_expression t \<Longrightarrow> well_formed t \<Longrightarrow> printable t"
  by (induction t) (auto split: Expression.splits)

lemma example_parses:
  "parse_source (40 + k) (''a.b('' @ DQ # ''k'' @ DQ # '', x) + 2 * -c[3]'') =
     OK (Program [ExpressionStatement
       (BinaryExpression ''+''
          (CallExpression (MemberExpression False (Identifier ''a'') (Identifier ''b''))
             [StringLiteral (DQ # ''k'' @ [DQ]), Identifier ''x''])
          (BinaryExpression ''*'' (NumericLiteral 2)
             (UnaryExpression ''-''
                (MemberExpression True (Identifier ''c'') (NumericLiteral 3)))))])"
  by (simp add: fuel_add parser_defs tok_defs rx_defs)

section \<open>String literals\<close>

text \<open>
  C1 (as the source has it). For every source that is a single string literal, a quote
  character \<open>q\<close> (double or single), a body without \<open>q\<close>, and \<open>q\<close> again, the first token is
  a \<^verbatim>\<open>STRING\<close> token whose value is the whole literal with both delimiters, and the parse
  succeeds, for every fuel from 40 on, with a \<open>StringLiteral\<close> node that stores the literal
  with both delimiters: nothing strips the quotes.
\<close>

theorem string_literal_keeps_quotes:
  assumes "q = DQ \<or> q = SQ" and "q \<notin> set s"
  shows "fst (GetNextToken (Tokenizer_New (q # s @ [q]))) = \<lparr>Type = STRING, Value = q # s @ [q]\<rparr>
       \<and> parse_source (40 + k) (q # s @ [q]) =
           OK (Program [ExpressionStatement (StringLiteral (q # s @ [q]))])"
  using assms first_token_DQ [of s] first_token_SQ [of s] parse_DQ [of s k] parse_SQ [of s k]
  by auto

theorem string_literal_keeps_quotes_witness:
  "(DQ = DQ \<or> DQ = SQ) \<and> DQ \<notin> set ''foo''
   \<and> fst (GetNextToken (Tokenizer_New (DQ # ''foo'' @ [DQ]))) =
       \<lparr>Type = STRING, Value = DQ # ''foo'' @ [DQ]\<rparr>
   \<and> parse_source 40 (DQ # ''foo'' @ [DQ]) =
       OK (Program [ExpressionStatement (StringLiteral (DQ # ''foo'' @ [DQ]))])"
  using string_literal_keeps_quotes [of DQ "''foo''" 0] by simp

text \<open>
  C1 as stated fails: for the source \<^verbatim>\<open>"foo"\<close> neither the token nor the node holds the bare
  contents \<^verbatim>\<open>foo\<close>.
\<close>

theorem string_literal_stripped_counterexample:
  "fst (GetNextToken (Tokenizer_New (DQ # ''foo'' @ [DQ]))) \<noteq> \<lparr>Type = STRING, Value = ''foo''\<rparr>
   \<and> parse_source 40 (DQ # ''foo'' @ [DQ]) \<noteq>
       OK (Program [ExpressionStatement (StringLiteral ''foo'')])"
  using first_token_DQ [of "''foo''"] parse_DQ [of "''foo''" 0] by simp

section \<open>The incomplete call\<close>

text \<open>
  C2 (as the source has it). Parsing \<^verbatim>\<open>f(\<close> fails, for every fuel from 40 on: after the
  opening parenthesis the lookahead is the end of input, which is not \<^verbatim>\<open>RPAREN\<close>, so
  \<^verbatim>\<open>arguments\<close> parses an argument list and \<^verbatim>\<open>primary\<close> panics with
  \<^verbatim>\<open>Unexpected primary expression.\<close>, a message that names no token category \<open>T\<close>, so not
  \<^verbatim>\<open>RPAREN\<close> either.
\<close>

theorem incomplete_call_fails:
  "parse_source (40 + k) ''f('' = Panic (Message ''Unexpected primary expression.'')
   \<and> \<not> mentions (TokenNames T) ''Unexpected primary expression.''"
  using open_call_panics [of k] primary_message_names_no_token [of T] by simp

text \<open>
  C2 as stated fails: the message of the failure on \<^verbatim>\<open>f(\<close> does not mention \<^verbatim>\<open>RPAREN\<close>.
\<close>

theorem incomplete_call_names_rparen_counterexample:
  "parse_source 40 ''f('' = Panic (Message ''Unexpected primary expression.'')
   \<and> \<not> mentions (TokenNames RPAREN) ''Unexpected primary expression.''"
  using open_call_panics [of 0] primary_message_names_no_token [of RPAREN] by simp

section \<open>Precedence and associativity\<close>

text \<open>
  C3. Parsing \<^verbatim>\<open>1+2*3\<close> succeeds, for every fuel from 40 on, with the product as the right
  operand of the sum, and the rendering of the program is \<^verbatim>\<open>(1+(2*3))\<close>.
\<close>

theorem parse_1_plus_2_times_3:
  "parse_source (40 + k) ''1+2*3'' =
     OK (Program [ExpressionStatement
       (BinaryExpression ''+'' (NumericLiteral 1)
         (BinaryExpression ''*'' (NumericLiteral 2) (NumericLiteral 3)))])
   \<and> Program_ToString (Program [ExpressionStatement
       (BinaryExpression ''+'' (NumericLiteral 1)
         (BinaryExpression ''*'' (NumericLiteral 2) (NumericLiteral 3)))]) = ''(1+(2*3))''"
  by (simp add: fuel_add parser_defs tok_defs rx_defs FormatInt_def FormatUint.simps digit_char_def)

text \<open>
  C4. Assignment and prefix operators nest to the right: \<^verbatim>\<open>a=b=c\<close> parses to
  \<open>a = (b = c)\<close> and \<^verbatim>\<open>--a\<close> to \<open>-(-a)\<close>, for every fuel from 40 on.
\<close>

theorem assignment_and_unary_right_associative:
  "parse_source (40 + k) ''a=b=c'' =
     OK (Program [ExpressionStatement
       (AssignmentExpression ''='' (Identifier ''a'')
         (AssignmentExpression ''='' (Identifier ''b'') (Identifier ''c'')))])
   \<and> parse_source (40 + k) ''--a'' =
     OK (Program [ExpressionStatement
       (UnaryExpression ''-'' (UnaryExpression ''-'' (Identifier ''a'')))])"
  by (simp add: fuel_add parser_defs tok_defs rx_defs)

section \<open>Keywords and identifiers\<close>

text \<open>
  C5. A keyword rule does not match a keyword that is followed by a word character.
  The tokens of \<^verbatim>\<open>let letter = 5\<close> are the keyword \<^verbatim>\<open>LET\<close>, the identifier \<^verbatim>\<open>letter\<close>,
  \<^verbatim>\<open>=\<close>, \<^verbatim>\<open>5\<close> and the end of input; the tokens of \<^verbatim>\<open>lettuce\<close> are one identifier
  \<^verbatim>\<open>lettuce\<close> and the end of input.
\<close>

theorem keyword_word_boundary:
  "(is_word c \<longrightarrow> rx_keyword kw (kw @ c # rest) = [])
   \<and> GetNextTokens 5 (Tokenizer_New ''let letter = 5'') =
       [\<lparr>Type = LET, Value = ''let''\<rparr>, \<lparr>Type = IDENTIFIER, Value = ''letter''\<rparr>,
        \<lparr>Type = SIMPLE_ASSIGN, Value = ''=''\<rparr>, \<lparr>Type = NUMBER, Value = ''5''\<rparr>,
        \<lparr>Type = EOF, Value = []\<rparr>]
   \<and> GetNextTokens 2 (Tokenizer_New ''lettuce'') =
       [\<lparr>Type = IDENTIFIER, Value = ''lettuce''\<rparr>, \<lparr>Type = EOF, Value = []\<rparr>]"
proof (intro conjI impI)
  assume "is_word c"
  then show "rx_keyword kw (kw @ c # rest) = []"
    by (simp add: rx_keyword_def starts_with_def)
qed (simp_all add: GetNextTokens_numeral tok_defs rx_defs)

theorem keyword_word_boundary_witness:
  "is_word (CHR ''t'') \<and> rx_keyword ''let'' (''let'' @ CHR ''t'' # ''uce'') = []"
  using keyword_word_boundary [of "CHR ''t''" "''let''" "''uce''"] by (simp add: is_word_def)

section \<open>Insignificant input\<close>

text \<open>
  C6. No call of \<^verbatim>\<open>GetNextToken\<close>, from any tokenizer state and at any position in a
  sequence of calls, returns a token of type \<^verbatim>\<open>IGNORE\<close>. The first four tokens of
  \<^verbatim>\<open>1 /* c */ + // c\<close>, a line feed, \<^verbatim>\<open> 2\<close> are \<^verbatim>\<open>NUMBER 1\<close>, \<^verbatim>\<open>ADDITIVE_OPERATOR +\<close>,
  \<^verbatim>\<open>NUMBER 2\<close> and \<^verbatim>\<open>EOF\<close>.
\<close>

theorem ignore_never_returned:
  "Type (fst (GetNextToken t)) \<noteq> IGNORE
   \<and> IGNORE \<notin> set (map Type (GetNextTokens n t))
   \<and> GetNextTokens 4 (Tokenizer_New (''1 /* c */ + // c'' @ [LF] @ '' 2'')) =
       [\<lparr>Type = NUMBER, Value = ''1''\<rparr>, \<lparr>Type = ADDITIVE_OPERATOR, Value = ''+''\<rparr>,
        \<lparr>Type = NUMBER, Value = ''2''\<rparr>, \<lparr>Type = EOF, Value = []\<rparr>]"
proof (intro conjI)
  show "Type (fst (GetNextToken t)) \<noteq> IGNORE"
    by (rule GetNextToken_not_IGNORE)
  show "IGNORE \<notin> set (map Type (GetNextTokens n t))"
  proof (induction n arbitrary: t)
    case 0
    show ?case by simp
  next
    case (Suc n)
    obtain tok t' where g: "GetNextToken t = (tok, t')"
      by (cases "GetNextToken t")
    have "Type tok \<noteq> IGNORE"
      using GetNextToken_not_IGNORE(1) [of t] g by simp
    with Suc [of t'] g show ?case by simp
  qed
qed (simp add: GetNextTokens_numeral tok_defs rx_defs)

section \<open>Rendering and re-parsing\<close>

text \<open>
  C7 (as the source has it). Take a source whose parse is one expression statement with a
  pure tree \<open>t\<close>: numeric, string, boolean and \<^verbatim>\<open>null\<close> literals, identifiers, \<^verbatim>\<open>this\<close>, unary,
  binary and logical nodes, calls (also of \<^verbatim>\<open>super\<close>) and member accesses, where no member
  access has a call as its object. Then parsing the rendering of that program succeeds, for
  every fuel from \<open>fuel t + 20\<close> on, and gives the same program again.
\<close>

theorem pure_source_roundtrip:
  assumes "parse_source n src = OK (Program [ExpressionStatement t])"
    and "pure_expression t"
  shows "parse_source (fuel t + 20 + k) (Program_ToString (Program [ExpressionStatement t]))
           = OK (Program [ExpressionStatement t])"
  using reparse_source [OF pure_well_formed_printable [OF assms(2) parsed_well_formed [OF assms(1)]]]
  by simp

theorem pure_source_roundtrip_witness:
  "parse_source 40 (''a.b('' @ DQ # ''k'' @ DQ # '', x) + 2 * -c[3]'') =
     OK (Program [ExpressionStatement
       (BinaryExpression ''+''
          (CallExpression (MemberExpression False (Identifier ''a'') (Identifier ''b''))
             [StringLiteral (DQ # ''k'' @ [DQ]), Identifier ''x''])
          (BinaryExpression ''*'' (NumericLiteral 2)
             (UnaryExpression ''-''
                (MemberExpression True (Identifier ''c'') (NumericLiteral 3)))))])
   \<and> pure_expression
       (BinaryExpression ''+''
          (CallExpression (MemberExpression False (Identifier ''a'') (Identifier ''b''))
             [StringLiteral (DQ # ''k'' @ [DQ]), Identifier ''x''])
          (BinaryExpression ''*'' (NumericLiteral 2)
             (UnaryExpression ''-''
                (MemberExpression True (Identifier ''c'') (NumericLiteral 3)))))
   \<and> parse_source 500 (''(a.b('' @ DQ # ''k'' @ DQ # '', x)+(2*(-c[3])))'') =
     OK (Program [ExpressionStatement
       (BinaryExpression ''+''
          (CallExpression (MemberExpression False (Identifier ''a'') (Identifier ''b''))
             [StringLiteral (DQ # ''k'' @ [DQ]), Identifier ''x''])
          (BinaryExpression ''*'' (NumericLiteral 2)
             (UnaryExpression ''-''
                (MemberExpression True (Identifier ''c'') (NumericLiteral 3)))))])"
proof -
  let ?t = "BinaryExpression ''+''
          (CallExpression (MemberExpression False (Identifier ''a'') (Identifier ''b''))
             [StringLiteral (DQ # ''k'' @ [DQ]), Identifier ''x''])
          (BinaryExpression ''*'' (NumericLiteral 2)
             (UnaryExpression ''-''
                (MemberExpression True (Identifier ''c'') (NumericLiteral 3))))"
  have p: "parse_source 40 (''a.b('' @ DQ # ''k'' @ DQ # '', x) + 2 * -c[3]'') = OK (Program [ExpressionStatement ?t])"
    using example_parses [of 0] by simp
  have q: "pure_expression ?t" by simp
  have s: "Program_ToString (Program [ExpressionStatement ?t]) = (''(a.b('' @ DQ # ''k'' @ DQ # '', x)+(2*(-c[3])))'')"
    by (simp add: FormatInt_def FormatUint.simps digit_char_def)
  obtain k where f: "fuel ?t + 20 + k = 500"
    by (rule that [of "500 - (fuel ?t + 20)"]) simp
  from pure_source_roundtrip [OF p q, of k]
  have "parse_source 500 (''(a.b('' @ DQ # ''k'' @ DQ # '', x)+(2*(-c[3])))'') = OK (Program [ExpressionStatement ?t])"
    unfolding s f .
  with p q show ?thesis by blast
qed

text \<open>
  C7 as stated fails for a member access on the result of a call. The source \<^verbatim>\<open>(f()).b\<close> is a
  member and call expression without comments; its tree is rendered as \<^verbatim>\<open>f().b\<close>, without the
  parentheses, and parsing \<^verbatim>\<open>f().b\<close> panics: \<^verbatim>\<open>callMemberExp\<close> returns after the call, and the
  dot that follows starts no statement.
\<close>

theorem member_of_call_counterexample:
  "parse_source 40 ''(f()).b'' =
     OK (Program [ExpressionStatement
       (MemberExpression False (CallExpression (Identifier ''f'') []) (Identifier ''b''))])
   \<and> Program_ToString (Program [ExpressionStatement
       (MemberExpression False (CallExpression (Identifier ''f'') []) (Identifier ''b''))]) = ''f().b''
   \<and> parse_source 40 ''f().b'' = Panic (Message ''Unexpected primary expression.'')"
  using member_of_call_parses [of 0] call_then_member_fails [of 0] by simp

section \<open>Assignment targets\<close>


section \<open>Numeric literals\<close>

text \<open>
  C9. A digit run with a leading zero is read in base 8: \<^verbatim>\<open>010\<close> parses to the literal 8.
  The digit run \<^verbatim>\<open>09\<close> is one \<^verbatim>\<open>NUMBER\<close> token, and parsing it panics with the syntax
  error of the conversion. Both for every fuel from 40 on.
\<close>

theorem numeric_literal_base_0:
  "parse_source (40 + k) ''010'' = OK (Program [ExpressionStatement (NumericLiteral 8)])
   \<and> GetNextTokens 2 (Tokenizer_New ''09'') =
       [\<lparr>Type = NUMBER, Value = ''09''\<rparr>, \<lparr>Type = EOF, Value = []\<rparr>]
   \<and> parse_source (40 + k) ''09'' = Panic (NumError ''09'' ErrSyntax)"
  by (simp add: fuel_add parser_defs tok_defs rx_defs GetNextTokens_numeral)

section \<open>Semicolons\<close>

text \<open>
  C10. No procedure of the parser consumes a \<^verbatim>\<open>SEMICOLON\<close> token, so a source whose token
  sequence contains one is never parsed: for every fuel from \<open>32 * length src + 30\<close> on the
  parse ends in a panic. The source \<^verbatim>\<open>a;b\<close> is tokenized as \<^verbatim>\<open>IDENTIFIER\<close>, \<^verbatim>\<open>SEMICOLON\<close>,
  \<^verbatim>\<open>IDENTIFIER\<close>, \<^verbatim>\<open>EOF\<close>, and parsing it panics with \<^verbatim>\<open>Unexpected primary expression.\<close>
  when the statement loop reaches the semicolon.
\<close>

theorem semicolon_token_is_fatal:
  "(SEMICOLON \<in> set (map Type (GetNextTokens m (Tokenizer_New src))) \<longrightarrow>
      (\<exists>e. parse_source (32 * length src + 30 + k) src = Panic e))
   \<and> GetNextTokens 4 (Tokenizer_New ''a;b'') =
       [\<lparr>Type = IDENTIFIER, Value = ''a''\<rparr>, \<lparr>Type = SEMICOLON, Value = '';''\<rparr>,
        \<lparr>Type = IDENTIFIER, Value = ''b''\<rparr>, \<lparr>Type = EOF, Value = []\<rparr>]
   \<and> parse_source (40 + k) ''a;b'' = Panic (Message ''Unexpected primary expression.'')"
proof (intro conjI impI)
  assume s: "SEMICOLON \<in> set (map Type (GetNextTokens m (Tokenizer_New src)))"
  show "\<exists>e. parse_source (32 * length src + 30 + k) src = Panic e"
  proof (cases "parse_source (32 * length src + 30 + k) src")
    case (OK prog)
    from parsed_source_semicolon_free [OF this] s show ?thesis by blast
  next
    case (Panic e)
    then show ?thesis by blast
  next
    case OutOfFuel
    with parse_source_returns [of src k] show ?thesis by simp
  qed
qed (simp_all add: fuel_add GetNextTokens_numeral parser_defs tok_defs rx_defs)

theorem semicolon_token_is_fatal_witness:
  "SEMICOLON \<in> set (map Type (GetNextTokens 2 (Tokenizer_New ''a;b'')))
   \<and> (\<exists>e. parse_source (32 * length ''a;b'' + 30 + 0) ''a;b'' = Panic e)"
  using semicolon_token_is_fatal [of 2 "''a;b''" 0]
  by (simp add: GetNextTokens_numeral tok_defs rx_defs)

end
